theory Spec2Isabelle
  imports Main "HOL-Library.Sublist"
begin

section \<open>Data model\<close>

text \<open>
  The model follows the variant of \<^verbatim>\<open>src/main.ts\<close> that exports \<^verbatim>\<open>processSteps\<close>,
  \<^verbatim>\<open>processJob\<close>, \<^verbatim>\<open>handleJobsAndSteps\<close> and \<^verbatim>\<open>removeUndefinedProperties\<close>.

  A timestamp or conclusion field of the GitHub API is \<^verbatim>\<open>string | null | undefined\<close>: a
  \<open>string option\<close>. Jobs and steps share the fields the code reads from both.
\<close>

record timed =
  name :: string
  status :: string
  conclusion :: "string option"
  started_at :: "string option"
  completed_at :: "string option"

record step = timed +
  number :: int

record job = timed +
  job_id :: int
  steps :: "step list option"

text \<open>\<^verbatim>\<open>new Date(s)\<close>, kept as the string it was built from; its time value is
  \<^verbatim>\<open>Date.parse(s)\<close>.\<close>

datatype date = Date string

datatype SpanStatusCode = UNSET | OK | ERROR

datatype attr_value = Num int | Str string

datatype ctx = ROOT_CONTEXT | WithSpan nat

record span_options =
  root :: bool
  startTime :: "date option"
  attributes :: "(string \<times> attr_value) list option"

section \<open>The tracer and the loggers\<close>

text \<open>
  Every call the program makes on the tracer, on a span or on a logger is appended to a
  log, with its outcome. A span handle is the position in the log of the
  \<^verbatim>\<open>startActiveSpan\<close> call that created it. The tracer is a collaborator whose calls may
  raise: it is modelled by what it decides for the call at each log position, \<open>None\<close>
  for a normal return and \<open>Some msg\<close> for \<^verbatim>\<open>throw new Error(msg)\<close>. The loggers
  (\<^verbatim>\<open>core.setFailed\<close>, \<^verbatim>\<open>console.error\<close>, \<^verbatim>\<open>diag.debug\<close>) return normally.

  The functions of the program are \<^verbatim>\<open>async\<close>. A function awaited on its own runs to its
  end, and is modelled so (\<open>processSteps\<close>, \<open>processJob\<close>). The jobs of
  \<^verbatim>\<open>Promise.all(jobs.map(...))\<close> are started one after the other, each running up to its
  first \<^verbatim>\<open>await\<close>; what is left of them runs from the queue of promise jobs, first in,
  first out (section \<open>The batch of jobs\<close>).
\<close>

datatype call =
    StartActiveSpan string span_options ctx
  | SetStatus nat SpanStatusCode "string option"
  | SetAttributes nat "(string \<times> attr_value) list"
  | End nat "date option"
  | SetFailed string
  | ConsoleError string
  | DiagDebug string

datatype outcome = Returned | Raised

datatype error = Error string | TypeError string

type_synonym log = "(call \<times> outcome) list"

type_synonym tracer = "nat \<Rightarrow> string option"

definition invoke :: "tracer \<Rightarrow> call \<Rightarrow> log \<Rightarrow> (error + unit) \<times> log" where
  "invoke tracer c l =
     (case tracer (length l) of
        None \<Rightarrow> (Inr (), l @ [(c, Returned)])
      | Some msg \<Rightarrow> (Inl (Error msg), l @ [(c, Raised)]))"

definition report :: "call \<Rightarrow> log \<Rightarrow> log" where
  "report c l = l @ [(c, Returned)]"

text \<open>Template-literal rendering \<^verbatim>\<open>${e}\<close> of a thrown error and of a nullable string.\<close>

fun to_string :: "error \<Rightarrow> string" where
  "to_string (Error msg) = (if msg = [] then ''Error'' else ''Error: '' @ msg)"
| "to_string (TypeError msg) = (if msg = [] then ''TypeError'' else ''TypeError: '' @ msg)"

definition nullable_to_string :: "string option \<Rightarrow> string" where
  "nullable_to_string t = (case t of None \<Rightarrow> ''null'' | Some s \<Rightarrow> s)"

text \<open>\<^verbatim>\<open>x ? x : undefined\<close> and \<^verbatim>\<open>x ? new Date(x) : undefined\<close>: the empty string is falsy.\<close>

definition if_truthy :: "string option \<Rightarrow> string option" where
  "if_truthy t = (case t of None \<Rightarrow> None | Some s \<Rightarrow> if s = [] then None else Some s)"

definition date_of :: "string option \<Rightarrow> date option" where
  "date_of t = map_option Date (if_truthy t)"

section \<open>removeUndefinedProperties\<close>

text \<open>
  An object is the list of its entries (\<^verbatim>\<open>Object.entries\<close>); an entry whose value is
  \<^verbatim>\<open>undefined\<close> holds \<open>None\<close>. \<^verbatim>\<open>acc[key] = value\<close> overwrites the entry of an
  existing key and appends a new one otherwise, for every key but one: the accumulator
  starts as \<^verbatim>\<open>{}\<close>, whose prototype has a setter for \<^verbatim>\<open>__proto__\<close>, so
  \<^verbatim>\<open>acc['__proto__'] = value\<close> runs that setter and creates no entry (the setter ignores a
  number or a string).
\<close>

fun put :: "(string \<times> 'v) list \<Rightarrow> string \<Rightarrow> 'v \<Rightarrow> (string \<times> 'v) list" where
  "put [] k v = [(k, v)]"
| "put ((k', v') # acc) k v =
     (if k' = k then (k, v) # acc else (k', v') # put acc k v)"

definition assign :: "(string \<times> 'v) list \<Rightarrow> string \<Rightarrow> 'v \<Rightarrow> (string \<times> 'v) list" where
  "assign acc k v = (if k = ''__proto__'' then acc else put acc k v)"

definition removeUndefinedProperties :: "(string \<times> 'v option) list \<Rightarrow> (string \<times> 'v) list" where
  "removeUndefinedProperties obj =
     foldl (\<lambda>acc (key, val). case val of None \<Rightarrow> acc | Some v \<Rightarrow> assign acc key v) [] obj"

text \<open>A \<^verbatim>\<open>Record<string, number | string>\<close> read at the wider type
  \<^verbatim>\<open>Record<string, number | string | undefined>\<close>.\<close>

definition widen :: "(string \<times> 'v) list \<Rightarrow> (string \<times> 'v option) list" where
  "widen obj = map (\<lambda>(k, v). (k, Some v)) obj"

section \<open>Spans for steps and jobs\<close>

definition startActiveSpan ::
  "tracer \<Rightarrow> string \<Rightarrow> span_options \<Rightarrow> ctx \<Rightarrow> (nat \<Rightarrow> log \<Rightarrow> (error + unit) \<times> log) \<Rightarrow> log
     \<Rightarrow> (error + unit) \<times> log" where
  "startActiveSpan tracer nm opts c fn l =
     (case invoke tracer (StartActiveSpan nm opts c) l of
        (Inl e, l') \<Rightarrow> (Inl e, l')
      | (Inr _, l') \<Rightarrow> fn (length l) l')"

definition setSpanStatus :: "tracer \<Rightarrow> nat \<Rightarrow> bool \<Rightarrow> log \<Rightarrow> (error + unit) \<times> log" where
  "setSpanStatus tracer span success l =
     (if success then invoke tracer (SetStatus span OK (Some ''OK'')) l
      else invoke tracer (SetStatus span ERROR (Some ''ERROR'')) l)"

definition step_attributes :: "step \<Rightarrow> (string \<times> attr_value option) list" where
  "step_attributes st =
     [(''step.number'', Some (Num (number st))),
      (''step.status'', Some (Str (status st))),
      (''step.started_at'', map_option Str (if_truthy (started_at st))),
      (''step.conclusion'', map_option Str (if_truthy (conclusion st)))]"

text \<open>The callback \<^verbatim>\<open>processSteps\<close> passes to \<^verbatim>\<open>startActiveSpan\<close> for one step.\<close>

definition step_callback :: "tracer \<Rightarrow> step \<Rightarrow> nat \<Rightarrow> log \<Rightarrow> (error + unit) \<times> log" where
  "step_callback tracer st span l =
     (case invoke tracer (SetAttributes span (removeUndefinedProperties (step_attributes st))) l of
        (Inl e, l1) \<Rightarrow> (Inl e, l1)
      | (Inr _, l1) \<Rightarrow>
          (case setSpanStatus tracer span (conclusion st = Some ''success'') l1 of
             (Inl e, l2) \<Rightarrow> (Inl e, l2)
           | (Inr _, l2) \<Rightarrow> invoke tracer (End span (date_of (completed_at st))) l2))"

fun processSteps :: "step list \<Rightarrow> tracer \<Rightarrow> ctx \<Rightarrow> log \<Rightarrow> (error + unit) \<times> log" where
  "processSteps [] tracer jobCtx l = (Inr (), l)"
| "processSteps (st # sts) tracer jobCtx l =
     (case startActiveSpan tracer (name st)
             \<lparr>root = False, startTime = date_of (started_at st), attributes = None\<rparr>
             jobCtx (step_callback tracer st) l of
        (Inl e, l') \<Rightarrow> (Inl e, l')
      | (Inr _, l') \<Rightarrow> processSteps sts tracer jobCtx l')"

text \<open>The \<^verbatim>\<open>try\<close> block of \<^verbatim>\<open>processJob\<close>, then its \<^verbatim>\<open>catch\<close> and \<^verbatim>\<open>finally\<close>.\<close>

definition job_try :: "tracer \<Rightarrow> job \<Rightarrow> nat \<Rightarrow> log \<Rightarrow> (error + unit) \<times> log" where
  "job_try tracer jb span l =
     (case setSpanStatus tracer span (conclusion jb = Some ''success'') l of
        (Inl e, l1) \<Rightarrow> (Inl e, l1)
      | (Inr _, l1) \<Rightarrow>
          (case steps jb of
             None \<Rightarrow> (Inr (), l1)
           | Some sts \<Rightarrow> processSteps sts tracer (WithSpan span) l1))"

definition job_callback :: "tracer \<Rightarrow> job \<Rightarrow> nat \<Rightarrow> log \<Rightarrow> (error + unit) \<times> log" where
  "job_callback tracer jb span l =
     (let l2 = (case job_try tracer jb span l of
                  (Inl e, l1) \<Rightarrow> report (SetFailed (''Failed to process job '' @ name jb)) l1
                | (Inr _, l1) \<Rightarrow> l1)
      in invoke tracer (End span (date_of (completed_at jb))) l2)"

definition processJob :: "job \<Rightarrow> tracer \<Rightarrow> ctx \<Rightarrow> log \<Rightarrow> (error + unit) \<times> log" where
  "processJob jb tracer parentCtx l =
     startActiveSpan tracer (''Job: '' @ name jb)
       \<lparr>root = False, startTime = date_of (started_at jb),
        attributes = Some [(''job.id'', Num (job_id jb)), (''job.status'', Str (status jb))]\<rparr>
       parentCtx (job_callback tracer jb) l"

section \<open>The batch of jobs\<close>

text \<open>
  \<^verbatim>\<open>jobs.map(async job => ...)\<close> calls the arrow function for each job in turn, and each call
  runs until its first \<^verbatim>\<open>await\<close> suspends it. An \<^verbatim>\<open>await\<close> of a promise that is settled
  puts the rest of the function on the queue of promise jobs at once; an \<^verbatim>\<open>await\<close> of a
  pending promise puts it there when the promise settles. The queue is run, first in,
  first out, once the last arrow function is suspended. What can be on the queue:
  \<^item> \<open>AfterSteps\<close>: the callback of \<^verbatim>\<open>processJob\<close> after \<^verbatim>\<open>await processSteps(...)\<close>, with the
    span of the job and what \<^verbatim>\<open>processSteps\<close> settled with;
  \<^item> \<open>AfterCallback\<close>: \<^verbatim>\<open>processJob\<close> after \<^verbatim>\<open>await tracer.startActiveSpan(...)\<close>, with what
    the callback settled with;
  \<^item> \<open>AfterJob\<close>: the arrow function after \<^verbatim>\<open>await processJobFn(...)\<close>, with what
    \<^verbatim>\<open>processJob\<close> settled with.
  \<^verbatim>\<open>processSteps\<close> has no \<^verbatim>\<open>await\<close>: its promise is settled when the call returns.
\<close>

datatype task =
    AfterSteps job nat "error + unit"
  | AfterCallback job "error + unit"
  | AfterJob job "error + unit"

text \<open>The promise a call of \<^verbatim>\<open>processJobFn\<close> returns: settled, or pending on a queued task.\<close>

datatype promise = Settled "error + unit" | Pending task

text \<open>The \<^verbatim>\<open>catch\<close> and \<^verbatim>\<open>finally\<close> blocks of \<^verbatim>\<open>processJob\<close>, after a \<^verbatim>\<open>try\<close> block that ended
  with \<open>r\<close>.\<close>

definition job_catch_finally :: "tracer \<Rightarrow> job \<Rightarrow> nat \<Rightarrow> error + unit \<Rightarrow> log \<Rightarrow> (error + unit) \<times> log" where
  "job_catch_finally tracer jb span r l =
     (let l2 = (case r of
                  Inl e \<Rightarrow> report (SetFailed (''Failed to process job '' @ name jb)) l
                | Inr _ \<Rightarrow> l)
      in invoke tracer (End span (date_of (completed_at jb))) l2)"

text \<open>The callback of \<^verbatim>\<open>processJob\<close>, up to \<^verbatim>\<open>await processSteps(...)\<close> or, when it does not get
  there, to its end; with the task that is then on the queue.\<close>

definition job_callback_call :: "tracer \<Rightarrow> job \<Rightarrow> nat \<Rightarrow> log \<Rightarrow> task \<times> log" where
  "job_callback_call tracer jb span l =
     (case setSpanStatus tracer span (conclusion jb = Some ''success'') l of
        (Inl e, l1) \<Rightarrow>
          (case job_catch_finally tracer jb span (Inl e) l1 of (r, l2) \<Rightarrow> (AfterCallback jb r, l2))
      | (Inr _, l1) \<Rightarrow>
          (case steps jb of
             None \<Rightarrow>
               (case job_catch_finally tracer jb span (Inr ()) l1 of (r, l2) \<Rightarrow> (AfterCallback jb r, l2))
           | Some sts \<Rightarrow>
               (case processSteps sts tracer (WithSpan span) l1 of (rs, l2) \<Rightarrow> (AfterSteps jb span rs, l2))))"

text \<open>The call \<^verbatim>\<open>processJob(job, tracer, parentCtx)\<close>: what it does before it returns its
  promise.\<close>

definition processJob_call :: "job \<Rightarrow> tracer \<Rightarrow> ctx \<Rightarrow> log \<Rightarrow> promise \<times> log" where
  "processJob_call jb tracer parentCtx l =
     (case invoke tracer (StartActiveSpan (''Job: '' @ name jb)
              \<lparr>root = False, startTime = date_of (started_at jb),
               attributes = Some [(''job.id'', Num (job_id jb)), (''job.status'', Str (status jb))]\<rparr>
              parentCtx) l of
        (Inl e, l') \<Rightarrow> (Settled (Inl e), l')
      | (Inr _, l') \<Rightarrow> (case job_callback_call tracer jb (length l) l' of (t, l2) \<Rightarrow> (Pending t, l2)))"

text \<open>The \<^verbatim>\<open>async job => { try { ... await processJobFn(...) } catch ... }\<close> of
  \<^verbatim>\<open>handleJobsAndSteps\<close>, up to its \<^verbatim>\<open>await\<close>.\<close>

definition job_task ::
  "tracer \<Rightarrow> nat \<Rightarrow> (job \<Rightarrow> tracer \<Rightarrow> ctx \<Rightarrow> log \<Rightarrow> promise \<times> log) \<Rightarrow> job \<Rightarrow> task list \<times> log
     \<Rightarrow> task list \<times> log" where
  "job_task tracer span processJobFn jb ql =
     (case processJobFn jb tracer (WithSpan span) (snd ql) of
        (Settled r, l') \<Rightarrow> (fst ql @ [AfterJob jb r], l')
      | (Pending t, l') \<Rightarrow> (fst ql @ [t], l'))"

text \<open>One task of the queue: what it appends to the log and what it puts on the queue.\<close>

fun run_task :: "tracer \<Rightarrow> task \<Rightarrow> log \<Rightarrow> task list \<times> log" where
  "run_task tracer (AfterSteps jb span rs) l =
     (case job_catch_finally tracer jb span rs l of (r, l') \<Rightarrow> ([AfterCallback jb r], l'))"
| "run_task tracer (AfterCallback jb r) l = ([AfterJob jb r], l)"
| "run_task tracer (AfterJob jb r) l =
     ([], case r of
            Inl e \<Rightarrow> report (ConsoleError (''Failed processing job '' @ name jb @ '' - '' @ to_string e)) l
          | Inr _ \<Rightarrow> l)"

fun weight :: "task \<Rightarrow> nat" where
  "weight (AfterSteps jb span rs) = 3"
| "weight (AfterCallback jb r) = 2"
| "weight (AfterJob jb r) = 1"

function run_queue :: "tracer \<Rightarrow> task list \<Rightarrow> log \<Rightarrow> log" where
  "run_queue tracer [] l = l"
| "run_queue tracer (t # queue) l =
     run_queue tracer (queue @ fst (run_task tracer t l)) (snd (run_task tracer t l))"
  by pat_completeness auto
termination
proof (relation "measure (\<lambda>(tracer, queue, l). sum_list (map weight queue))")
  show "wf (measure (\<lambda>(tracer, queue, l). sum_list (map weight queue)))" by simp
next
  fix tracer :: tracer and t :: task and queue :: "task list" and l :: log
  have "sum_list (map weight (fst (run_task tracer t l))) < weight t"
    by (cases t) (auto split: prod.splits)
  then show "((tracer, queue @ fst (run_task tracer t l), snd (run_task tracer t l)), tracer, t # queue, l)
      \<in> measure (\<lambda>(tracer, queue, l). sum_list (map weight queue))"
    by simp
qed

text \<open>What the promise of a call of \<^verbatim>\<open>processJob\<close> settles with, and the log then, when nothing
  else is on the queue: the call awaited on its own.\<close>

definition settle :: "tracer \<Rightarrow> promise \<times> log \<Rightarrow> (error + unit) \<times> log" where
  "settle tracer pl =
     (case fst pl of
        Settled r \<Rightarrow> (r, snd pl)
      | Pending (AfterSteps jb span rs) \<Rightarrow> job_catch_finally tracer jb span rs (snd pl)
      | Pending (AfterCallback jb r) \<Rightarrow> (r, snd pl)
      | Pending (AfterJob jb r) \<Rightarrow> (r, snd pl))"

section \<open>The root span\<close>

text \<open>The status and the attributes of the root span, then the batch.\<close>

definition handleJobsAndSteps ::
  "tracer \<Rightarrow> nat \<Rightarrow> job list \<Rightarrow> (string \<times> attr_value option) list
     \<Rightarrow> (job \<Rightarrow> tracer \<Rightarrow> ctx \<Rightarrow> log \<Rightarrow> promise \<times> log) \<Rightarrow> log \<Rightarrow> (error + unit) \<times> log" where
  "handleJobsAndSteps tracer span jobs rootAttributes processJobFn l =
     (let anyJobError = list_ex (\<lambda>jb. conclusion jb \<noteq> Some ''success'') jobs in
      case invoke tracer (SetStatus span (if anyJobError then ERROR else OK) None) l of
        (Inl e, l1) \<Rightarrow> (Inl e, l1)
      | (Inr _, l1) \<Rightarrow>
          (case invoke tracer (SetAttributes span (removeUndefinedProperties rootAttributes)) l1 of
             (Inl e, l2) \<Rightarrow> (Inl e, l2)
           | (Inr _, l2) \<Rightarrow>
               (case fold (job_task tracer span processJobFn) jobs ([], l2) of
                  (queue, l3) \<Rightarrow> (Inr (), run_queue tracer queue l3))))"

text \<open>
  \<^verbatim>\<open>(x.completed_at && Date.parse(x.completed_at)) || 0\<close>. \<^verbatim>\<open>Date.parse\<close> is a parameter:
  \<open>None\<close> is \<^verbatim>\<open>NaN\<close>, \<open>Some t\<close> the time value in milliseconds.
\<close>

definition time_key :: "(string \<Rightarrow> int option) \<Rightarrow> job \<Rightarrow> int" where
  "time_key Date_parse jb =
     (case if_truthy (completed_at jb) of
        None \<Rightarrow> 0
      | Some s \<Rightarrow> (case Date_parse s of None \<Rightarrow> 0 | Some t \<Rightarrow> t))"

definition later :: "(string \<Rightarrow> int option) \<Rightarrow> job \<Rightarrow> job \<Rightarrow> job" where
  "later Date_parse prev current =
     (if time_key Date_parse prev > time_key Date_parse current then prev else current)"

text \<open>\<^verbatim>\<open>Array.prototype.reduce\<close> without an initial value.\<close>

fun reduce :: "('a \<Rightarrow> 'a \<Rightarrow> 'a) \<Rightarrow> 'a list \<Rightarrow> error + 'a" where
  "reduce f [] = Inl (TypeError ''Reduce of empty array with no initial value'')"
| "reduce f (x # xs) = Inr (foldl f x xs)"

definition root_callback ::
  "(string \<Rightarrow> int option) \<Rightarrow> job list \<Rightarrow> tracer \<Rightarrow> (string \<times> attr_value option) list \<Rightarrow> nat \<Rightarrow> log
     \<Rightarrow> (error + unit) \<times> log" where
  "root_callback Date_parse jobs tracer rootAttributes span l =
     (let l2 = (case handleJobsAndSteps tracer span jobs rootAttributes processJob_call l of
                  (Inl e, l1) \<Rightarrow> report (SetFailed (''Failed to parse jobs and steps: '' @ to_string e)) l1
                | (Inr _, l1) \<Rightarrow> l1);
          completedJobs = filter (\<lambda>jb. status jb = ''completed'') jobs
      in case reduce (later Date_parse) completedJobs of
           Inl e \<Rightarrow> (Inl e, l2)
         | Inr lastCompletedJob \<Rightarrow>
             invoke tracer (End span (date_of (completed_at lastCompletedJob)))
               (report (DiagDebug (''completed at: '' @ nullable_to_string (completed_at lastCompletedJob))) l2))"

definition createSpansForJobsAndSteps ::
  "(string \<Rightarrow> int option) \<Rightarrow> string \<Rightarrow> job list \<Rightarrow> tracer \<Rightarrow> (string \<times> attr_value option) list \<Rightarrow> log
     \<Rightarrow> (error + unit) \<times> log" where
  "createSpansForJobsAndSteps Date_parse start jobs tracer rootAttributes l =
     startActiveSpan tracer ''root''
       \<lparr>root = True, startTime = Some (Date start), attributes = None\<rparr>
       ROOT_CONTEXT (root_callback Date_parse jobs tracer rootAttributes) l"

section \<open>Reading the log\<close>

definition ends_of :: "nat \<Rightarrow> log \<Rightarrow> date option list" where
  "ends_of span l = concat (map (\<lambda>(c, out). case c of End s d \<Rightarrow> (if s = span then [d] else []) | _ \<Rightarrow> []) l)"

definition statuses_of :: "nat \<Rightarrow> log \<Rightarrow> (SpanStatusCode \<times> string option) list" where
  "statuses_of span l =
     concat (map (\<lambda>(c, out). case c of SetStatus s code msg \<Rightarrow> (if s = span then [(code, msg)] else []) | _ \<Rightarrow> []) l)"

text \<open>The span a call acts on, and whether every such span of a stretch of the log was
  created at a position from \<open>lo\<close> on, or before \<open>hi\<close>.\<close>

fun subject :: "call \<Rightarrow> nat option" where
  "subject (SetStatus s code msg) = Some s"
| "subject (SetAttributes s as) = Some s"
| "subject (End s d) = Some s"
| "subject c = None"

definition scoped :: "nat \<Rightarrow> log \<Rightarrow> bool" where
  "scoped lo new = (\<forall>(c, out) \<in> set new. case subject c of None \<Rightarrow> True | Some s \<Rightarrow> lo \<le> s)"

definition below :: "nat \<Rightarrow> log \<Rightarrow> bool" where
  "below hi new = (\<forall>(c, out) \<in> set new. case subject c of None \<Rightarrow> True | Some s \<Rightarrow> s < hi)"

text \<open>The end times the queued tasks still owe to a span.\<close>

definition pending_ends :: "nat \<Rightarrow> task list \<Rightarrow> date option list" where
  "pending_ends span queue =
     concat (map (\<lambda>t. case t of
                         AfterSteps jb s rs \<Rightarrow> (if s = span then [date_of (completed_at jb)] else [])
                       | _ \<Rightarrow> []) queue)"

text \<open>What the \<^verbatim>\<open>catch\<close> block of \<^verbatim>\<open>processJob\<close> appends to the log after a \<^verbatim>\<open>try\<close> block that
  ended with \<open>r\<close>.\<close>

definition failure_report :: "job \<Rightarrow> error + unit \<Rightarrow> log" where
  "failure_report jb r =
     (case r of Inl e \<Rightarrow> [(SetFailed (''Failed to process job '' @ name jb), Returned)] | Inr u \<Rightarrow> [])"

definition result_at :: "tracer \<Rightarrow> nat \<Rightarrow> error + unit" where
  "result_at tracer n = (case tracer n of None \<Rightarrow> Inr () | Some msg \<Rightarrow> Inl (Error msg))"

definition outcome_at :: "tracer \<Rightarrow> nat \<Rightarrow> outcome" where
  "outcome_at tracer n = (case tracer n of None \<Rightarrow> Returned | Some msg \<Rightarrow> Raised)"

text \<open>The entries whose value is not unset, in the words of the specification.\<close>

fun keep :: "(string \<times> 'v option) list \<Rightarrow> (string \<times> 'v) list" where
  "keep [] = []"
| "keep ((k, None) # obj) = keep obj"
| "keep ((k, Some v) # obj) = (k, v) # keep obj"

text \<open>What \<^verbatim>\<open>setSpanStatus(span, c === 'success')\<close> records for a conclusion \<open>c\<close>.\<close>

definition status_of_conclusion :: "string option \<Rightarrow> SpanStatusCode \<times> string option" where
  "status_of_conclusion c = (if c = Some ''success'' then (OK, Some ''OK'') else (ERROR, Some ''ERROR''))"

text \<open>The aggregate status, in the words of the specification.\<close>

definition aggregate :: "job list \<Rightarrow> SpanStatusCode" where
  "aggregate jobs = (if \<exists>jb\<in>set jobs. conclusion jb \<noteq> Some ''success'' then ERROR else OK)"

text \<open>The names of the spans whose creation a stretch of the log asks for, in order.\<close>

definition started :: "log \<Rightarrow> string list" where
  "started l = concat (map (\<lambda>(c, out). case c of StartActiveSpan nm opts c' \<Rightarrow> [nm] | _ \<Rightarrow> []) l)"

text \<open>The completion time of a job, when it has a timestamp that \<^verbatim>\<open>Date.parse\<close> reads.\<close>

definition time_of :: "(string \<Rightarrow> int option) \<Rightarrow> job \<Rightarrow> int option" where
  "time_of Date_parse jb = (case if_truthy (completed_at jb) of None \<Rightarrow> None | Some s \<Rightarrow> Date_parse s)"

abbreviation root_start :: "string \<Rightarrow> call" where
  "root_start start \<equiv> StartActiveSpan ''root''
       \<lparr>root = True, startTime = Some (Date start), attributes = None\<rparr> ROOT_CONTEXT"

abbreviation job_start :: "job \<Rightarrow> ctx \<Rightarrow> call" where
  "job_start jb pc \<equiv> StartActiveSpan (''Job: '' @ name jb)
       \<lparr>root = False, startTime = date_of (started_at jb),
        attributes = Some [(''job.id'', Num (job_id jb)), (''job.status'', Str (status jb))]\<rparr> pc"

abbreviation step_start :: "step \<Rightarrow> ctx \<Rightarrow> call" where
  "step_start st c \<equiv> StartActiveSpan (name st)
       \<lparr>root = False, startTime = date_of (started_at st), attributes = None\<rparr> c"

abbreviation status_call :: "nat \<Rightarrow> string option \<Rightarrow> call" where
  "status_call span c \<equiv> SetStatus span (fst (status_of_conclusion c)) (snd (status_of_conclusion c))"

text \<open>The four calls of one step whose span is created at position \<open>span\<close>, when none raises.\<close>

definition step_calls :: "nat \<Rightarrow> ctx \<Rightarrow> step \<Rightarrow> log" where
  "step_calls span c st =
     [(step_start st c, Returned),
      (SetAttributes span (removeUndefinedProperties (step_attributes st)), Returned),
      (status_call span (conclusion st), Returned),
      (End span (date_of (completed_at st)), Returned)]"

section \<open>Sample inputs\<close>

text \<open>
  The steps and jobs of the test suite, and variations of them. \<open>Date_parse_sample\<close> is
  the table of \<^verbatim>\<open>Date.parse\<close> on the timestamps these samples use; it reads every other
  string, such as \<^verbatim>\<open>'not a date'\<close>, as \<^verbatim>\<open>NaN\<close>.
\<close>

definition Date_parse_sample :: "string \<Rightarrow> int option" where
  "Date_parse_sample s =
     (if s = ''1969-12-31T23:59:59Z'' then Some (- 1000)
      else if s = ''2023-01-01T00:00:00Z'' then Some 1672531200000
      else if s = ''2023-01-01T00:01:00Z'' then Some 1672531260000
      else if s = ''2023-01-01T00:10:00Z'' then Some 1672531800000
      else if s = ''2023-01-01T00:12:00Z'' then Some 1672531920000
      else None)"

definition quiet :: tracer where
  "quiet n = None"

definition raising_at :: "nat \<Rightarrow> tracer" where
  "raising_at k n = (if n = k then Some ''boom'' else None)"

definition step1 :: step where
  "step1 = \<lparr>name = ''step1'', status = ''completed'', conclusion = Some ''success'',
            started_at = Some ''2023-01-01T00:01:00Z'', completed_at = Some ''2023-01-01T00:01:00Z'',
            number = 1\<rparr>"

definition step2 :: step where
  "step2 = \<lparr>name = ''step2'', status = ''in_progress'', conclusion = Some ''failure'',
            started_at = Some ''2023-01-01T00:01:00Z'', completed_at = None,
            number = 2\<rparr>"

definition someJob :: job where
  "someJob = \<lparr>name = ''someJob'', status = ''completed'', conclusion = Some ''success'',
              started_at = Some ''2023-01-01T00:00:00Z'', completed_at = Some ''2023-01-01T00:10:00Z'',
              job_id = 123, steps = Some [step1]\<rparr>"

definition flakyJob :: job where
  "flakyJob = \<lparr>name = ''flakyJob'', status = ''completed'', conclusion = Some ''success'',
              started_at = Some ''2023-01-01T00:00:00Z'', completed_at = Some ''2023-01-01T00:10:00Z'',
              job_id = 126, steps = Some [step2]\<rparr>"

definition failedJob :: job where
  "failedJob = \<lparr>name = ''failedJob'', status = ''completed'', conclusion = Some ''failure'',
              started_at = Some ''2023-01-01T00:00:00Z'', completed_at = Some ''2023-01-01T00:12:00Z'',
              job_id = 124, steps = None\<rparr>"

definition undatedJob :: job where
  "undatedJob = \<lparr>name = ''undatedJob'', status = ''completed'', conclusion = Some ''success'',
              started_at = None, completed_at = Some ''not a date'',
              job_id = 125, steps = None\<rparr>"

definition unfinishedJob :: job where
  "unfinishedJob = \<lparr>name = ''unfinishedJob'', status = ''completed'', conclusion = None,
              started_at = None, completed_at = None,
              job_id = 127, steps = None\<rparr>"

definition oldJob :: job where
  "oldJob = \<lparr>name = ''oldJob'', status = ''completed'', conclusion = Some ''success'',
              started_at = None, completed_at = Some ''1969-12-31T23:59:59Z'',
              job_id = 128, steps = None\<rparr>"

text \<open>The log once the root span is open.\<close>

definition root_opened :: log where
  "root_opened = [(root_start ''2023-01-01T00:00:00Z'', Returned)]"

section \<open>The sanitizer\<close>

lemma put_fresh: "k \<notin> fst ` set acc \<Longrightarrow> put acc k v = acc @ [(k, v)]"
  by (induction acc) auto

lemma fst_set_put: "fst ` set (put acc k v) = insert k (fst ` set acc)"
  by (induction acc) force+

lemma distinct_put: "distinct (map fst acc) \<Longrightarrow> distinct (map fst (put acc k v))"
  by (induction acc) (auto simp: fst_set_put)

lemma distinct_assign: "distinct (map fst acc) \<Longrightarrow> distinct (map fst (assign acc k v))"
  by (simp add: assign_def distinct_put)

lemma foldl_assign_distinct:
  "distinct (map fst obj) \<Longrightarrow> fst ` set acc \<inter> fst ` set obj = {} \<Longrightarrow>
   foldl (\<lambda>acc (key, val). case val of None \<Rightarrow> acc | Some v \<Rightarrow> assign acc key v) acc obj =
     acc @ keep (filter (\<lambda>(k, val). k \<noteq> ''__proto__'') obj)"
proof (induction obj arbitrary: acc)
  case Nil
  then show ?case by simp
next
  case (Cons e obj)
  obtain k val where e: "e = (k, val)" by (cases e)
  show ?case
  proof (cases val)
    case None
    with Cons e show ?thesis by auto
  next
    case (Some v)
    show ?thesis
    proof (cases "k = ''__proto__''")
      case True
      with Cons e Some show ?thesis by (auto simp: assign_def)
    next
      case False
      have fresh: "k \<notin> fst ` set acc" using Cons.prems e by auto
      have "fst ` set (acc @ [(k, v)]) \<inter> fst ` set obj = {}" using Cons.prems e by auto
      with Cons e Some fresh False show ?thesis by (simp add: assign_def put_fresh)
    qed
  qed
qed

text \<open>On an object (its keys are distinct) the sanitizer keeps the entries whose value is
  not \<^verbatim>\<open>undefined\<close>, but for an entry of key \<^verbatim>\<open>__proto__\<close>.\<close>

lemma removeUndefinedProperties_keep:
  "distinct (map fst obj) \<Longrightarrow>
   removeUndefinedProperties obj = keep (filter (\<lambda>(k, val). k \<noteq> ''__proto__'') obj)"
  using foldl_assign_distinct [of obj "[]"] by (simp add: removeUndefinedProperties_def)

lemma filter_no_proto:
  "''__proto__'' \<notin> fst ` set obj \<Longrightarrow> filter (\<lambda>(k, val). k \<noteq> ''__proto__'') obj = obj"
  by (induction obj) auto

lemma removeUndefinedProperties_plain:
  "distinct (map fst obj) \<Longrightarrow> ''__proto__'' \<notin> fst ` set obj \<Longrightarrow> removeUndefinedProperties obj = keep obj"
  by (simp add: removeUndefinedProperties_keep filter_no_proto)

lemma foldl_assign_keys:
  "distinct (map fst acc) \<Longrightarrow> ''__proto__'' \<notin> fst ` set acc \<Longrightarrow>
   distinct (map fst (foldl (\<lambda>acc (key, val). case val of None \<Rightarrow> acc | Some v \<Rightarrow> assign acc key v) acc obj))
   \<and> ''__proto__'' \<notin> fst ` set (foldl (\<lambda>acc (key, val). case val of None \<Rightarrow> acc | Some v \<Rightarrow> assign acc key v) acc obj)"
proof (induction obj arbitrary: acc)
  case Nil
  then show ?case by simp
next
  case (Cons e obj)
  obtain k val where e: "e = (k, val)" by (cases e)
  show ?case
  proof (cases val)
    case None
    with Cons e show ?thesis by simp
  next
    case (Some v)
    have "distinct (map fst (assign acc k v))" using Cons.prems by (simp add: distinct_assign)
    moreover have "''__proto__'' \<notin> fst ` set (assign acc k v)"
      using Cons.prems by (simp add: assign_def fst_set_put)
    ultimately show ?thesis using Cons.IH [of "assign acc k v"] e Some by simp
  qed
qed

lemma keep_widen: "keep (widen xs) = xs"
  by (induction xs) (auto simp: widen_def)

lemma fst_widen: "map fst (widen xs) = map fst xs"
  by (induction xs) (auto simp: widen_def)

lemma removeUndefinedProperties_twice:
  "removeUndefinedProperties (widen (removeUndefinedProperties obj)) = removeUndefinedProperties obj"
proof -
  have d: "distinct (map fst (removeUndefinedProperties obj))"
    and n: "''__proto__'' \<notin> fst ` set (removeUndefinedProperties obj)"
    using foldl_assign_keys [of "[]" obj] by (simp_all add: removeUndefinedProperties_def)
  have "''__proto__'' \<notin> fst ` set (widen (removeUndefinedProperties obj))"
    using n by (metis fst_widen set_map)
  then show ?thesis
    using d by (simp add: removeUndefinedProperties_plain fst_widen keep_widen)
qed

lemma set_keep: "set (keep obj) = {(k, v). (k, Some v) \<in> set obj}"
  by (induction obj rule: keep.induct) auto

lemma keep_comprehension: "keep obj = [(k, v). (k, Some v) \<leftarrow> obj]"
  by (induction obj rule: keep.induct) auto

text \<open>For an object without an entry of key \<^verbatim>\<open>__proto__\<close>, the sanitizer returns exactly the
  entries whose value is not \<^verbatim>\<open>undefined\<close>, keys and values unchanged, and applied to its
  own result it changes nothing.\<close>

lemma removeUndefinedProperties_exact:
  assumes "distinct (map fst obj)" and "''__proto__'' \<notin> fst ` set obj"
  shows "removeUndefinedProperties obj = [(k, v). (k, Some v) \<leftarrow> obj]
   \<and> set (removeUndefinedProperties obj) = {(k, v). (k, Some v) \<in> set obj}
   \<and> removeUndefinedProperties (widen (removeUndefinedProperties obj)) = removeUndefinedProperties obj"
proof -
  have k: "removeUndefinedProperties obj = keep obj"
    using assms by (rule removeUndefinedProperties_plain)
  have 1: "removeUndefinedProperties obj = [(k, v). (k, Some v) \<leftarrow> obj]"
    by (simp only: k keep_comprehension)
  have 2: "set (removeUndefinedProperties obj) = {(k, v). (k, Some v) \<in> set obj}"
    by (simp only: k set_keep)
  show ?thesis using 1 2 removeUndefinedProperties_twice [of obj] by blast
qed

text \<open>
  C9. An object with an entry of key \<^verbatim>\<open>__proto__\<close> whose value is a string, such as
  \<^verbatim>\<open>JSON.parse('{"__proto__": "value1", "property3": "value3"}')\<close>: the sanitizer drops the
  entry, though its value is not \<^verbatim>\<open>undefined\<close>. The entries whose value is set are two; the
  result has one.
\<close>

theorem removeUndefinedProperties_drops_proto:
  "removeUndefinedProperties
     [(''__proto__'', Some (Str ''value1'')), (''property2'', None), (''property3'', Some (Str ''value3''))]
     = [(''property3'', Str ''value3'')]
   \<and> keep [(''__proto__'', Some (Str ''value1'')), (''property2'', None), (''property3'', Some (Str ''value3''))]
     = [(''__proto__'', Str ''value1''), (''property3'', Str ''value3'')]"
  by (simp add: removeUndefinedProperties_def assign_def)

section \<open>Reading the log: basic facts\<close>

lemma invoke_eq:
  "invoke tracer c l = (result_at tracer (length l), l @ [(c, outcome_at tracer (length l))])"
  by (simp add: invoke_def result_at_def outcome_at_def split: option.splits)

lemma scoped_Nil [simp]: "scoped lo []"
  by (simp add: scoped_def)

lemma scoped_Cons [simp]:
  "scoped lo ((c, out) # new) = ((case subject c of None \<Rightarrow> True | Some s \<Rightarrow> lo \<le> s) \<and> scoped lo new)"
  by (simp add: scoped_def)

lemma scoped_append [simp]: "scoped lo (xs @ ys) = (scoped lo xs \<and> scoped lo ys)"
  by (auto simp: scoped_def)

lemma scoped_mono: "scoped lo new \<Longrightarrow> lo' \<le> lo \<Longrightarrow> scoped lo' new"
  by (fastforce simp: scoped_def split: option.splits)

lemma ends_of_Nil [simp]: "ends_of span [] = []"
  by (simp add: ends_of_def)

lemma ends_of_append [simp]: "ends_of span (xs @ ys) = ends_of span xs @ ends_of span ys"
  by (simp add: ends_of_def)

lemma ends_of_Cons [simp]:
  "ends_of span ((c, out) # l) = (case c of End s d \<Rightarrow> (if s = span then [d] else []) | _ \<Rightarrow> []) @ ends_of span l"
  by (simp add: ends_of_def)

lemma statuses_of_Nil [simp]: "statuses_of span [] = []"
  by (simp add: statuses_of_def)

lemma statuses_of_append [simp]:
  "statuses_of span (xs @ ys) = statuses_of span xs @ statuses_of span ys"
  by (simp add: statuses_of_def)

lemma statuses_of_Cons [simp]:
  "statuses_of span ((c, out) # l) =
     (case c of SetStatus s code msg \<Rightarrow> (if s = span then [(code, msg)] else []) | _ \<Rightarrow> []) @ statuses_of span l"
  by (simp add: statuses_of_def)

lemma ends_of_scoped: "scoped lo new \<Longrightarrow> span < lo \<Longrightarrow> ends_of span new = []"
  by (induction new) (auto split: call.splits)

lemma statuses_of_scoped: "scoped lo new \<Longrightarrow> span < lo \<Longrightarrow> statuses_of span new = []"
  by (induction new) (auto split: call.splits)

lemma result_at_cases: "result_at tracer n = Inr () \<or> (\<exists>msg. result_at tracer n = Inl (Error msg))"
  by (simp add: result_at_def split: option.splits)

lemma started_Nil [simp]: "started [] = []"
  by (simp add: started_def)

lemma started_append [simp]: "started (xs @ ys) = started xs @ started ys"
  by (simp add: started_def)

lemma started_Cons [simp]:
  "started ((c, out) # l) = (case c of StartActiveSpan nm opts c' \<Rightarrow> [nm] | _ \<Rightarrow> []) @ started l"
  by (simp add: started_def)

lemma drop_new: "drop (length l) (l @ new) = new"
  by simp

lemma nth_middle: "(xs @ y # ys) ! length xs = y"
  by (simp add: nth_append)

section \<open>Step spans\<close>

lemma step_callback_log:
  "\<exists>new. snd (step_callback tracer st span l) = l @ new \<and> scoped span new"
  by (auto simp: step_callback_def setSpanStatus_def invoke_eq split: sum.splits)

lemma step_callback_started:
  "\<exists>new. snd (step_callback tracer st span l) = l @ new \<and> started new = []"
  by (auto simp: step_callback_def setSpanStatus_def invoke_eq split: sum.splits)

lemma step_callback_quiet:
  assumes "tracer (length l) = None" "tracer (Suc (length l)) = None" "tracer (Suc (Suc (length l))) = None"
  shows "step_callback tracer st span l =
     (Inr (), l @ [(SetAttributes span (removeUndefinedProperties (step_attributes st)), Returned),
                   (status_call span (conclusion st), Returned),
                   (End span (date_of (completed_at st)), Returned)])"
  using assms by (simp add: step_callback_def setSpanStatus_def invoke_def status_of_conclusion_def)

lemma processSteps_log:
  "\<exists>new. snd (processSteps sts tracer c l) = l @ new \<and> scoped (length l) new"
proof (induction sts arbitrary: l)
  case Nil
  show ?case by simp
next
  case (Cons st sts)
  let ?s = "(StartActiveSpan (name st) \<lparr>root = False, startTime = date_of (started_at st), attributes = None\<rparr> c,
             outcome_at tracer (length l))"
  obtain new1 where n1: "snd (step_callback tracer st (length l) (l @ [?s])) = (l @ [?s]) @ new1"
    and s1: "scoped (length l) new1"
    using step_callback_log by blast
  obtain new2 where n2: "snd (processSteps sts tracer c ((l @ [?s]) @ new1)) = ((l @ [?s]) @ new1) @ new2"
    and s2: "scoped (length ((l @ [?s]) @ new1)) new2"
    using Cons.IH by blast
  have s2': "scoped (length l) new2" using s2 by (rule scoped_mono) simp
  show ?case using n1 n2 s1 s2'
    by (cases "step_callback tracer st (length l) (l @ [?s])")
       (auto simp: startActiveSpan_def invoke_eq split: sum.splits)
qed

lemma processSteps_started:
  "\<exists>new. snd (processSteps sts tracer c l) = l @ new \<and> prefix (started new) (map name sts)"
proof (induction sts arbitrary: l)
  case Nil
  show ?case by simp
next
  case (Cons st sts)
  show ?case
  proof (cases "tracer (length l)")
    case (Some msg)
    then have "snd (processSteps (st # sts) tracer c l) = l @ [(step_start st c, Raised)]"
      by (simp add: startActiveSpan_def invoke_def)
    moreover have "prefix (started [(step_start st c, Raised)]) (map name (st # sts))" by simp
    ultimately show ?thesis by blast
  next
    case None
    let ?l1 = "l @ [(step_start st c, Returned)]"
    obtain r l' where cb: "step_callback tracer st (length l) ?l1 = (r, l')"
      by (cases "step_callback tracer st (length l) ?l1")
    obtain new1 where n1: "l' = ?l1 @ new1" and s1: "started new1 = []"
      using step_callback_started [of tracer st "length l" ?l1] cb by auto
    show ?thesis
    proof (cases r)
      case (Inl e)
      have "snd (processSteps (st # sts) tracer c l) = l @ ((step_start st c, Returned) # new1)"
        using None cb Inl n1 by (simp add: startActiveSpan_def invoke_def)
      moreover have "prefix (started ((step_start st c, Returned) # new1)) (map name (st # sts))"
        using s1 by simp
      ultimately show ?thesis by blast
    next
      case (Inr u)
      obtain new2 where n2: "snd (processSteps sts tracer c l') = l' @ new2"
        and p2: "prefix (started new2) (map name sts)"
        using Cons.IH by blast
      have "snd (processSteps (st # sts) tracer c l) = l @ ((step_start st c, Returned) # new1 @ new2)"
        using None cb Inr n1 n2 by (simp add: startActiveSpan_def invoke_def)
      moreover have "prefix (started ((step_start st c, Returned) # new1 @ new2)) (map name (st # sts))"
        using s1 p2 by simp
      ultimately show ?thesis by blast
    qed
  qed
qed

lemma processSteps_Cons_quiet:
  assumes "\<forall>n\<ge>length l. tracer n = None"
  shows "processSteps (st # sts) tracer c l = processSteps sts tracer c (l @ step_calls (length l) c st)"
proof -
  have 0: "tracer (length l) = None" using assms by simp
  have "step_callback tracer st (length l) (l @ [(step_start st c, Returned)]) =
     (Inr (), (l @ [(step_start st c, Returned)]) @
                  [(SetAttributes (length l) (removeUndefinedProperties (step_attributes st)), Returned),
                   (status_call (length l) (conclusion st), Returned),
                   (End (length l) (date_of (completed_at st)), Returned)])"
    by (rule step_callback_quiet) (simp_all add: assms)
  then show ?thesis using 0 by (simp add: startActiveSpan_def invoke_def step_calls_def)
qed

lemma processSteps_quiet:
  assumes "\<forall>n\<ge>length l. tracer n = None"
  shows "\<exists>new. processSteps sts tracer c l = (Inr (), l @ new) \<and> length new = 4 * length sts
      \<and> started new = map name sts \<and> scoped (length l) new
      \<and> (\<forall>i<length sts.
            new ! (4 * i) = (step_start (sts ! i) c, Returned)
          \<and> new ! (4 * i + 3) = (End (length l + 4 * i) (date_of (completed_at (sts ! i))), Returned)
          \<and> statuses_of (length l + 4 * i) new = [status_of_conclusion (conclusion (sts ! i))]
          \<and> ends_of (length l + 4 * i) new = [date_of (completed_at (sts ! i))])"
  using assms
proof (induction sts arbitrary: l)
  case Nil
  show ?case by simp
next
  case (Cons st sts)
  define four where "four = step_calls (length l) c st"
  have len4: "length four = 4" by (simp add: four_def step_calls_def)
  have q: "\<forall>n\<ge>length (l @ four). tracer n = None" using Cons.prems by simp
  from Cons.IH [OF q] obtain new' where
    eq: "processSteps sts tracer c (l @ four) = (Inr (), (l @ four) @ new')"
    and len: "length new' = 4 * length sts"
    and st': "started new' = map name sts"
    and sc: "scoped (length (l @ four)) new'"
    and each: "\<forall>i<length sts.
            new' ! (4 * i) = (step_start (sts ! i) c, Returned)
          \<and> new' ! (4 * i + 3) = (End (length (l @ four) + 4 * i) (date_of (completed_at (sts ! i))), Returned)
          \<and> statuses_of (length (l @ four) + 4 * i) new' = [status_of_conclusion (conclusion (sts ! i))]
          \<and> ends_of (length (l @ four) + 4 * i) new' = [date_of (completed_at (sts ! i))]"
    by blast
  have 1: "processSteps (st # sts) tracer c l = (Inr (), l @ (four @ new'))"
    using processSteps_Cons_quiet [OF Cons.prems, of st sts c] eq by (simp add: four_def)
  have 2: "length (four @ new') = 4 * length (st # sts)" using len len4 by simp
  have 3: "started (four @ new') = map name (st # sts)"
    using st' by (simp add: four_def step_calls_def)
  have sc4: "scoped (length l) four" by (simp add: four_def step_calls_def)
  have 4: "scoped (length l) (four @ new')"
    using sc4 scoped_mono [OF sc, of "length l"] by simp
  have e0: "ends_of (length l) new' = []" using sc by (rule ends_of_scoped) (simp add: len4)
  have s0: "statuses_of (length l) new' = []" using sc by (rule statuses_of_scoped) (simp add: len4)
  have 5: "\<forall>i<length (st # sts).
            (four @ new') ! (4 * i) = (step_start ((st # sts) ! i) c, Returned)
          \<and> (four @ new') ! (4 * i + 3) = (End (length l + 4 * i) (date_of (completed_at ((st # sts) ! i))), Returned)
          \<and> statuses_of (length l + 4 * i) (four @ new') = [status_of_conclusion (conclusion ((st # sts) ! i))]
          \<and> ends_of (length l + 4 * i) (four @ new') = [date_of (completed_at ((st # sts) ! i))]"
  proof (intro allI impI)
    fix i assume i: "i < length (st # sts)"
    show "(four @ new') ! (4 * i) = (step_start ((st # sts) ! i) c, Returned)
          \<and> (four @ new') ! (4 * i + 3) = (End (length l + 4 * i) (date_of (completed_at ((st # sts) ! i))), Returned)
          \<and> statuses_of (length l + 4 * i) (four @ new') = [status_of_conclusion (conclusion ((st # sts) ! i))]
          \<and> ends_of (length l + 4 * i) (four @ new') = [date_of (completed_at ((st # sts) ! i))]"
    proof (cases i)
      case 0
      then show ?thesis using e0 s0 by (simp add: four_def step_calls_def)
    next
      case (Suc j)
      then have j: "j < length sts" using i by simp
      have a': "4 * i = length four + 4 * j" and b': "4 * i + 3 = length four + (4 * j + 3)"
        using Suc len4 by simp_all
      have a: "(four @ new') ! (4 * i) = new' ! (4 * j)"
        by (simp only: a' nth_append_length_plus)
      have b: "(four @ new') ! (4 * i + 3) = new' ! (4 * j + 3)"
        by (simp only: b' nth_append_length_plus)
      have c: "length l + 4 * i = length (l @ four) + 4 * j" using Suc len4 by simp
      have d: "statuses_of (length (l @ four) + 4 * j) four = []"
              "ends_of (length (l @ four) + 4 * j) four = []"
        by (simp_all add: four_def step_calls_def)
      have n: "(st # sts) ! i = sts ! j" using Suc by simp
      show ?thesis using each [rule_format, OF j]
        unfolding a b c n statuses_of_append ends_of_append d by simp
    qed
  qed
  show ?case using 1 2 3 4 5 by blast
qed

text \<open>
  C7. The spans \<^verbatim>\<open>processSteps\<close> asks for are those of an initial stretch of the input
  sequence, in the order of the sequence, whatever the tracer does. When no call raises,
  there is one span per step, in input order: the span of step \<open>i\<close> is created by the
  call at position \<open>4 * i\<close> and ended, exactly once, by the call at position
  \<open>4 * i + 3\<close>, before the span of the next step is created. The \<open>number\<close> field plays
  no part in it.
\<close>

theorem processSteps_in_order:
  "prefix (started (drop (length l) (snd (processSteps sts tracer jobCtx l)))) (map name sts)
   \<and> ((\<forall>n\<ge>length l. tracer n = None) \<longrightarrow>
        started (drop (length l) (snd (processSteps sts tracer jobCtx l))) = map name sts
      \<and> length (drop (length l) (snd (processSteps sts tracer jobCtx l))) = 4 * length sts
      \<and> (\<forall>i<length sts.
            fst (drop (length l) (snd (processSteps sts tracer jobCtx l)) ! (4 * i)) =
              StartActiveSpan (name (sts ! i))
                \<lparr>root = False, startTime = date_of (started_at (sts ! i)), attributes = None\<rparr> jobCtx
          \<and> fst (drop (length l) (snd (processSteps sts tracer jobCtx l)) ! (4 * i + 3)) =
              End (length l + 4 * i) (date_of (completed_at (sts ! i)))
          \<and> ends_of (length l + 4 * i) (drop (length l) (snd (processSteps sts tracer jobCtx l))) =
              [date_of (completed_at (sts ! i))]))"
proof -
  obtain new where n: "snd (processSteps sts tracer jobCtx l) = l @ new"
    and p: "prefix (started new) (map name sts)"
    using processSteps_started by blast
  have 1: "prefix (started (drop (length l) (snd (processSteps sts tracer jobCtx l)))) (map name sts)"
    using p by (simp only: n drop_new)
  have 2: "(\<forall>n\<ge>length l. tracer n = None) \<longrightarrow>
        started (drop (length l) (snd (processSteps sts tracer jobCtx l))) = map name sts
      \<and> length (drop (length l) (snd (processSteps sts tracer jobCtx l))) = 4 * length sts
      \<and> (\<forall>i<length sts.
            fst (drop (length l) (snd (processSteps sts tracer jobCtx l)) ! (4 * i)) =
              StartActiveSpan (name (sts ! i))
                \<lparr>root = False, startTime = date_of (started_at (sts ! i)), attributes = None\<rparr> jobCtx
          \<and> fst (drop (length l) (snd (processSteps sts tracer jobCtx l)) ! (4 * i + 3)) =
              End (length l + 4 * i) (date_of (completed_at (sts ! i)))
          \<and> ends_of (length l + 4 * i) (drop (length l) (snd (processSteps sts tracer jobCtx l))) =
              [date_of (completed_at (sts ! i))])"
  proof
    assume q: "\<forall>n\<ge>length l. tracer n = None"
    from processSteps_quiet [OF q, of sts jobCtx] obtain new' where
      eq: "processSteps sts tracer jobCtx l = (Inr (), l @ new')"
      and rest: "length new' = 4 * length sts" "started new' = map name sts"
        "\<forall>i<length sts.
            new' ! (4 * i) = (step_start (sts ! i) jobCtx, Returned)
          \<and> new' ! (4 * i + 3) = (End (length l + 4 * i) (date_of (completed_at (sts ! i))), Returned)
          \<and> statuses_of (length l + 4 * i) new' = [status_of_conclusion (conclusion (sts ! i))]
          \<and> ends_of (length l + 4 * i) new' = [date_of (completed_at (sts ! i))]"
      by blast
    have d: "drop (length l) (snd (processSteps sts tracer jobCtx l)) = new'"
      by (simp add: eq)
    show "started (drop (length l) (snd (processSteps sts tracer jobCtx l))) = map name sts
      \<and> length (drop (length l) (snd (processSteps sts tracer jobCtx l))) = 4 * length sts
      \<and> (\<forall>i<length sts.
            fst (drop (length l) (snd (processSteps sts tracer jobCtx l)) ! (4 * i)) =
              StartActiveSpan (name (sts ! i))
                \<lparr>root = False, startTime = date_of (started_at (sts ! i)), attributes = None\<rparr> jobCtx
          \<and> fst (drop (length l) (snd (processSteps sts tracer jobCtx l)) ! (4 * i + 3)) =
              End (length l + 4 * i) (date_of (completed_at (sts ! i)))
          \<and> ends_of (length l + 4 * i) (drop (length l) (snd (processSteps sts tracer jobCtx l))) =
              [date_of (completed_at (sts ! i))])"
      unfolding d using rest by simp
  qed
  show ?thesis using 1 2 by blast
qed

theorem processSteps_in_order_witness:
  "number step2 = 2 \<and> number step1 = 1
   \<and> started (snd (processSteps [step2, step1] quiet (WithSpan 0) [])) = [''step2'', ''step1'']
   \<and> length (snd (processSteps [step2, step1] quiet (WithSpan 0) [])) = 8"
  using processSteps_in_order [where tracer = quiet and l = "[]" and sts = "[step2, step1]"
      and jobCtx = "WithSpan 0"]
  by (simp add: quiet_def step1_def step2_def)

text \<open>
  C8. When no call raises, \<^verbatim>\<open>processSteps\<close> returns normally and, for every step of the
  sequence: its span is created with the start timestamp of the step as start time, when
  the step has one; the only status set on it is \<open>OK\<close> when the conclusion of the step
  is \<^verbatim>\<open>'success'\<close> and \<open>ERROR\<close> otherwise; and it is ended exactly once, at the completion
  timestamp of the step when it has one and with no end time otherwise. A timestamp that
  is \<^verbatim>\<open>null\<close>, \<^verbatim>\<open>undefined\<close> or the empty string counts as absent.
\<close>

theorem step_span_status_and_times:
  assumes q: "\<forall>n\<ge>length l. tracer n = None" and i: "i < length sts"
  shows "fst (processSteps sts tracer jobCtx l) = Inr ()
     \<and> drop (length l) (snd (processSteps sts tracer jobCtx l)) ! (4 * i) =
         (StartActiveSpan (name (sts ! i))
            \<lparr>root = False, startTime = date_of (started_at (sts ! i)), attributes = None\<rparr> jobCtx, Returned)
     \<and> statuses_of (length l + 4 * i) (drop (length l) (snd (processSteps sts tracer jobCtx l))) =
         [if conclusion (sts ! i) = Some ''success'' then (OK, Some ''OK'') else (ERROR, Some ''ERROR'')]
     \<and> ends_of (length l + 4 * i) (drop (length l) (snd (processSteps sts tracer jobCtx l))) =
         [date_of (completed_at (sts ! i))]
     \<and> date_of None = None \<and> date_of (Some []) = None
     \<and> (\<forall>s. s \<noteq> [] \<longrightarrow> date_of (Some s) = Some (Date s))"
proof -
  from processSteps_quiet [OF q, of sts jobCtx] obtain new' where
    eq: "processSteps sts tracer jobCtx l = (Inr (), l @ new')"
    and each: "\<forall>i<length sts.
            new' ! (4 * i) = (step_start (sts ! i) jobCtx, Returned)
          \<and> new' ! (4 * i + 3) = (End (length l + 4 * i) (date_of (completed_at (sts ! i))), Returned)
          \<and> statuses_of (length l + 4 * i) new' = [status_of_conclusion (conclusion (sts ! i))]
          \<and> ends_of (length l + 4 * i) new' = [date_of (completed_at (sts ! i))]"
    by blast
  have d: "drop (length l) (snd (processSteps sts tracer jobCtx l)) = new'"
    by (simp add: eq)
  have r: "fst (processSteps sts tracer jobCtx l) = Inr ()" by (simp add: eq)
  have dt: "date_of None = None \<and> date_of (Some []) = None
     \<and> (\<forall>s. s \<noteq> [] \<longrightarrow> date_of (Some s) = Some (Date s))"
    by (simp add: date_of_def if_truthy_def)
  show ?thesis unfolding d using each [rule_format, OF i] r dt by (simp add: status_of_conclusion_def)
qed

theorem step_span_status_and_times_witness:
  "completed_at step2 = None
   \<and> fst (processSteps [step1, step2] quiet (WithSpan 0) []) = Inr ()
   \<and> statuses_of 4 (snd (processSteps [step1, step2] quiet (WithSpan 0) [])) = [(ERROR, Some ''ERROR'')]
   \<and> ends_of 4 (snd (processSteps [step1, step2] quiet (WithSpan 0) [])) = [None]"
  using step_span_status_and_times [where tracer = quiet and l = "[]" and sts = "[step1, step2]"
      and jobCtx = "WithSpan 0" and i = 1]
  by (simp add: quiet_def step1_def step2_def date_of_def if_truthy_def)

section \<open>Job spans\<close>

lemma job_try_log:
  "\<exists>rest. snd (job_try tracer jb span l) =
            l @ (status_call span (conclusion jb), outcome_at tracer (length l)) # rest
        \<and> scoped (Suc (length l)) rest"
proof (cases "steps jb")
  case None
  then show ?thesis
    by (auto simp: job_try_def status_of_conclusion_def setSpanStatus_def invoke_eq split: sum.splits)
next
  case (Some sts)
  let ?l1 = "l @ [(status_call span (conclusion jb), outcome_at tracer (length l))]"
  obtain new where "snd (processSteps sts tracer (WithSpan span) ?l1) = ?l1 @ new"
    and "scoped (length ?l1) new"
    using processSteps_log by blast
  with Some show ?thesis
    by (auto simp: job_try_def status_of_conclusion_def setSpanStatus_def invoke_eq split: sum.splits)
qed

lemma job_callback_log:
  "\<exists>rest. job_callback tracer jb span l =
       (result_at tracer (Suc (length l + length rest)),
        l @ (status_call span (conclusion jb), outcome_at tracer (length l)) # rest
          @ [(End span (date_of (completed_at jb)), outcome_at tracer (Suc (length l + length rest)))])
     \<and> scoped (Suc (length l)) rest
     \<and> (fst (job_try tracer jb span l) \<noteq> Inr () \<longrightarrow>
          (SetFailed (''Failed to process job '' @ name jb), Returned) \<in> set rest)"
proof -
  obtain rest where r: "snd (job_try tracer jb span l) =
            l @ (status_call span (conclusion jb), outcome_at tracer (length l)) # rest"
    and s: "scoped (Suc (length l)) rest"
    using job_try_log by blast
  show ?thesis
  proof (cases "fst (job_try tracer jb span l)")
    case (Inl e)
    let ?rest = "rest @ [(SetFailed (''Failed to process job '' @ name jb), Returned)]"
    have "job_callback tracer jb span l =
       (result_at tracer (Suc (length l + length ?rest)),
        l @ (status_call span (conclusion jb), outcome_at tracer (length l)) # ?rest
          @ [(End span (date_of (completed_at jb)), outcome_at tracer (Suc (length l + length ?rest)))])"
      using Inl r by (cases "job_try tracer jb span l") (simp add: job_callback_def report_def invoke_eq)
    moreover have "scoped (Suc (length l)) ?rest" using s by simp
    ultimately show ?thesis by (intro exI [of _ ?rest]) simp
  next
    case (Inr u)
    have "job_callback tracer jb span l =
       (result_at tracer (Suc (length l + length rest)),
        l @ (status_call span (conclusion jb), outcome_at tracer (length l)) # rest
          @ [(End span (date_of (completed_at jb)), outcome_at tracer (Suc (length l + length rest)))])"
      using Inr r by (cases "job_try tracer jb span l") (simp add: job_callback_def report_def invoke_eq)
    with s Inr show ?thesis by (intro exI [of _ rest]) simp
  qed
qed

lemma processJob_raised:
  "tracer (length l) = Some msg \<Longrightarrow>
   processJob jb tracer pc l = (Inl (Error msg), l @ [(job_start jb pc, Raised)])"
  by (simp add: processJob_def startActiveSpan_def invoke_def)

lemma processJob_open:
  assumes "tracer (length l) = None"
  shows "\<exists>rest. processJob jb tracer pc l =
       (result_at tracer (length l + 2 + length rest),
        l @ (job_start jb pc, Returned)
          # (status_call (length l) (conclusion jb), outcome_at tracer (Suc (length l)))
          # rest
          @ [(End (length l) (date_of (completed_at jb)), outcome_at tracer (length l + 2 + length rest))])
     \<and> scoped (length l + 2) rest
     \<and> (fst (job_try tracer jb (length l) (l @ [(job_start jb pc, Returned)])) \<noteq> Inr () \<longrightarrow>
          (SetFailed (''Failed to process job '' @ name jb), Returned) \<in> set rest)"
proof -
  let ?l1 = "l @ [(job_start jb pc, Returned)]"
  obtain rest where
    "job_callback tracer jb (length l) ?l1 =
       (result_at tracer (Suc (length ?l1 + length rest)),
        ?l1 @ (status_call (length l) (conclusion jb), outcome_at tracer (length ?l1)) # rest
          @ [(End (length l) (date_of (completed_at jb)), outcome_at tracer (Suc (length ?l1 + length rest)))])"
    and "scoped (Suc (length ?l1)) rest"
    and "fst (job_try tracer jb (length l) ?l1) \<noteq> Inr () \<longrightarrow>
          (SetFailed (''Failed to process job '' @ name jb), Returned) \<in> set rest"
    using job_callback_log [of tracer jb "length l" ?l1] by blast
  with assms show ?thesis
    by (intro exI [of _ rest]) (simp add: processJob_def startActiveSpan_def invoke_def)
qed

lemma processJob_log:
  "\<exists>new. snd (processJob jb tracer pc l) = l @ (job_start jb pc, outcome_at tracer (length l)) # new
      \<and> scoped (length l) new"
proof (cases "tracer (length l)")
  case None
  from processJob_open [of tracer l jb pc] None obtain rest where
    eq: "processJob jb tracer pc l =
       (result_at tracer (length l + 2 + length rest),
        l @ (job_start jb pc, Returned)
          # (status_call (length l) (conclusion jb), outcome_at tracer (Suc (length l)))
          # rest
          @ [(End (length l) (date_of (completed_at jb)), outcome_at tracer (length l + 2 + length rest))])"
    and sc: "scoped (length l + 2) rest" by blast
  have sc': "scoped (length l) rest" using sc by (rule scoped_mono) simp
  have o: "outcome_at tracer (length l) = Returned" using None by (simp add: outcome_at_def)
  show ?thesis unfolding eq o using sc' by simp
next
  case (Some msg)
  then show ?thesis by (simp add: processJob_raised outcome_at_def)
qed

text \<open>
  C6. Once the span of a job is open, \<^verbatim>\<open>processJob\<close> makes exactly one \<^verbatim>\<open>setStatus\<close> call on
  it: \<open>OK\<close> when the conclusion of the job is \<^verbatim>\<open>'success'\<close>, \<open>ERROR\<close> otherwise. The steps
  of the job and the behaviour of the tracer play no part in it.
\<close>

theorem processJob_status:
  "tracer (length l) = None \<Longrightarrow>
   statuses_of (length l) (drop (length l) (snd (processJob jb tracer pc l))) =
     [if conclusion jb = Some ''success'' then (OK, Some ''OK'') else (ERROR, Some ''ERROR'')]"
proof -
  assume "tracer (length l) = None"
  with processJob_open [of tracer l jb pc] obtain rest where
    eq: "processJob jb tracer pc l =
       (result_at tracer (length l + 2 + length rest),
        l @ (job_start jb pc, Returned)
          # (status_call (length l) (conclusion jb), outcome_at tracer (Suc (length l)))
          # rest
          @ [(End (length l) (date_of (completed_at jb)), outcome_at tracer (length l + 2 + length rest))])"
    and sc: "scoped (length l + 2) rest" by blast
  have "statuses_of (length l) rest = []" using sc by (rule statuses_of_scoped) simp
  then show ?thesis unfolding eq by (simp add: status_of_conclusion_def)
qed

theorem processJob_status_witness:
  "quiet 0 = None \<and> conclusion step2 = Some ''failure'' \<and> steps flakyJob = Some [step2]
   \<and> statuses_of 0 (snd (processJob flakyJob quiet ROOT_CONTEXT [])) = [(OK, Some ''OK'')]"
  using processJob_status [where tracer = quiet and l = "[]" and jb = flakyJob and pc = ROOT_CONTEXT]
  by (simp add: quiet_def flakyJob_def step2_def)

section \<open>A batch of jobs\<close>

text \<open>
  The calls a job makes before its first \<^verbatim>\<open>await\<close> act on spans created in that stretch of
  the log, and the queue then holds at most one task that still has to end the span of
  the job.
\<close>

lemma below_Nil [simp]: "below hi []"
  by (simp add: below_def)

lemma below_Cons [simp]:
  "below hi ((c, out) # new) = ((case subject c of None \<Rightarrow> True | Some s \<Rightarrow> s < hi) \<and> below hi new)"
  by (simp add: below_def)

lemma below_append [simp]: "below hi (xs @ ys) = (below hi xs \<and> below hi ys)"
  by (auto simp: below_def)

lemma below_mono: "below hi new \<Longrightarrow> hi \<le> hi' \<Longrightarrow> below hi' new"
  by (fastforce simp: below_def split: option.splits)

lemma ends_of_below: "below hi new \<Longrightarrow> hi \<le> span \<Longrightarrow> ends_of span new = []"
  by (induction new) (auto split: call.splits)

lemma pending_ends_Nil [simp]: "pending_ends span [] = []"
  by (simp add: pending_ends_def)

lemma pending_ends_append [simp]:
  "pending_ends span (xs @ ys) = pending_ends span xs @ pending_ends span ys"
  by (simp add: pending_ends_def)

lemma pending_ends_Cons:
  "pending_ends span (t # queue) = pending_ends span [t] @ pending_ends span queue"
  by (simp add: pending_ends_def)

lemma pending_ends_single [simp]:
  "pending_ends span [AfterSteps jb s rs] = (if s = span then [date_of (completed_at jb)] else [])"
  "pending_ends span [AfterCallback jb r] = []"
  "pending_ends span [AfterJob jb r] = []"
  by (simp_all add: pending_ends_def)

lemma step_callback_range:
  "\<exists>new. snd (step_callback tracer st span l) = l @ new \<and> scoped span new \<and> below (Suc span) new"
  by (auto simp: step_callback_def setSpanStatus_def invoke_eq split: sum.splits)

lemma processSteps_range:
  "\<exists>new. snd (processSteps sts tracer c l) = l @ new \<and> scoped (length l) new \<and> below (length (l @ new)) new"
proof (induction sts arbitrary: l)
  case Nil
  show ?case by simp
next
  case (Cons st sts)
  let ?s = "(step_start st c, outcome_at tracer (length l))"
  obtain new1 where n1: "snd (step_callback tracer st (length l) (l @ [?s])) = (l @ [?s]) @ new1"
    and s1: "scoped (length l) new1" and b1: "below (Suc (length l)) new1"
    using step_callback_range by blast
  obtain new2 where n2: "snd (processSteps sts tracer c ((l @ [?s]) @ new1)) = ((l @ [?s]) @ new1) @ new2"
    and s2: "scoped (length ((l @ [?s]) @ new1)) new2"
    and b2: "below (length (((l @ [?s]) @ new1) @ new2)) new2"
    using Cons.IH by blast
  have s2': "scoped (length l) new2" using s2 by (rule scoped_mono) simp
  have b1': "below (length (l @ ?s # new1)) new1" using b1 by (rule below_mono) simp
  have b1'': "below (length (l @ ?s # new1 @ new2)) new1" using b1 by (rule below_mono) simp
  have b2': "below (length (l @ ?s # new1 @ new2)) new2" using b2 by simp
  obtain r l' where cb: "step_callback tracer st (length l) (l @ [?s]) = (r, l')"
    by (cases "step_callback tracer st (length l) (l @ [?s])")
  have l': "l' = l @ ?s # new1" using n1 cb by simp
  consider (a) e where "result_at tracer (length l) = Inl e"
    | (b) e where "result_at tracer (length l) = Inr ()" "r = Inl e"
    | (c) "result_at tracer (length l) = Inr ()" "r = Inr ()"
    using result_at_cases [of tracer "length l"] by (cases r) auto
  then show ?case
  proof cases
    case a
    then have "snd (processSteps (st # sts) tracer c l) = l @ [?s]"
      by (simp add: startActiveSpan_def invoke_eq)
    then show ?thesis by (intro exI [of _ "[?s]"]) simp
  next
    case b
    then have "snd (processSteps (st # sts) tracer c l) = l @ ?s # new1"
      using cb l' by (simp add: startActiveSpan_def invoke_eq)
    then show ?thesis using s1 b1' by (intro exI [of _ "?s # new1"]) simp
  next
    case c
    then have "snd (processSteps (st # sts) tracer c l) = l @ ?s # new1 @ new2"
      using cb l' n2 by (simp add: startActiveSpan_def invoke_eq)
    then show ?thesis using s1 s2' b1'' b2' by (intro exI [of _ "?s # new1 @ new2"]) simp
  qed
qed

lemma failure_report_plain [simp]:
  "ends_of s (failure_report jb r) = []" "statuses_of s (failure_report jb r) = []"
  "scoped lo (failure_report jb r)" "below hi (failure_report jb r)"
  by (simp_all add: failure_report_def split: sum.splits)

lemma job_catch_finally_eq:
  "job_catch_finally tracer jb span r l =
     (result_at tracer (length (l @ failure_report jb r)),
      l @ failure_report jb r @
        [(End span (date_of (completed_at jb)), outcome_at tracer (length (l @ failure_report jb r)))])"
  by (cases r) (simp_all add: job_catch_finally_def failure_report_def report_def invoke_eq)

lemma job_callback_call_range:
  assumes "span < length l"
  shows "\<exists>t new. job_callback_call tracer jb span l = (t, l @ new) \<and> scoped span new
      \<and> below (length (l @ new)) new
      \<and> ends_of span new @ pending_ends span [t] = [date_of (completed_at jb)]
      \<and> (\<forall>s. s \<noteq> span \<longrightarrow> pending_ends s [t] = [])"
proof -
  let ?ss = "(status_call span (conclusion jb), outcome_at tracer (length l))"
  let ?l1 = "l @ [?ss]"
  have st: "setSpanStatus tracer span (conclusion jb = Some ''success'') l = (result_at tracer (length l), ?l1)"
    by (simp add: setSpanStatus_def invoke_eq status_of_conclusion_def)
  have direct: "\<exists>t new. (case job_catch_finally tracer jb span r ?l1 of (r', l2) \<Rightarrow> (AfterCallback jb r', l2))
        = (t, l @ new) \<and> scoped span new \<and> below (length (l @ new)) new
      \<and> ends_of span new @ pending_ends span [t] = [date_of (completed_at jb)]
      \<and> (\<forall>s. s \<noteq> span \<longrightarrow> pending_ends s [t] = [])" for r
  proof -
    let ?en = "(End span (date_of (completed_at jb)), outcome_at tracer (length (?l1 @ failure_report jb r)))"
    let ?new = "?ss # failure_report jb r @ [?en]"
    have "(case job_catch_finally tracer jb span r ?l1 of (r', l2) \<Rightarrow> (AfterCallback jb r', l2))
        = (AfterCallback jb (result_at tracer (length (?l1 @ failure_report jb r))), l @ ?new)"
      by (simp add: job_catch_finally_eq)
    moreover have "scoped span ?new" by simp
    moreover have "below (length (l @ ?new)) ?new" using assms by simp
    moreover have "ends_of span ?new
        @ pending_ends span [AfterCallback jb (result_at tracer (length (?l1 @ failure_report jb r)))]
        = [date_of (completed_at jb)]" by simp
    ultimately show ?thesis by (intro exI conjI) (assumption | simp)+
  qed
  consider (a) e where "result_at tracer (length l) = Inl e"
    | (b) "result_at tracer (length l) = Inr ()" "steps jb = None"
    | (c) sts where "result_at tracer (length l) = Inr ()" "steps jb = Some sts"
    using result_at_cases [of tracer "length l"] by (cases "steps jb") auto
  then show ?thesis
  proof cases
    case a
    then have "job_callback_call tracer jb span l =
        (case job_catch_finally tracer jb span (Inl e) ?l1 of (r', l2) \<Rightarrow> (AfterCallback jb r', l2))"
      by (simp add: job_callback_call_def st)
    then show ?thesis using direct [of "Inl e"] by simp
  next
    case b
    then have "job_callback_call tracer jb span l =
        (case job_catch_finally tracer jb span (Inr ()) ?l1 of (r', l2) \<Rightarrow> (AfterCallback jb r', l2))"
      by (simp add: job_callback_call_def st)
    then show ?thesis using direct [of "Inr ()"] by simp
  next
    case c
    obtain rs l2 where ps: "processSteps sts tracer (WithSpan span) ?l1 = (rs, l2)"
      by (cases "processSteps sts tracer (WithSpan span) ?l1")
    obtain new where n: "l2 = ?l1 @ new" and sc: "scoped (length ?l1) new"
      and bl: "below (length (?l1 @ new)) new"
      using processSteps_range [of sts tracer "WithSpan span" ?l1] ps by auto
    have eq: "job_callback_call tracer jb span l = (AfterSteps jb span rs, l @ ?ss # new)"
      using c ps n by (simp add: job_callback_call_def st)
    have sc': "scoped span new" using sc by (rule scoped_mono) (use assms in simp)
    have e: "ends_of span new = []" using sc by (rule ends_of_scoped) (use assms in simp)
    have "scoped span (?ss # new)" using sc' by simp
    moreover have "below (length (l @ ?ss # new)) (?ss # new)" using bl assms by simp
    moreover have "ends_of span (?ss # new) @ pending_ends span [AfterSteps jb span rs]
        = [date_of (completed_at jb)]" using e by simp
    moreover have "\<forall>s. s \<noteq> span \<longrightarrow> pending_ends s [AfterSteps jb span rs] = []" by simp
    ultimately show ?thesis using eq by blast
  qed
qed


lemma processJob_call_range:
  "\<exists>pr new. processJob_call jb tracer pc l = (pr, l @ (job_start jb pc, outcome_at tracer (length l)) # new)
      \<and> scoped (length l) new \<and> below (Suc (length l + length new)) new
      \<and> (tracer (length l) \<noteq> None \<longrightarrow> new = [] \<and> (\<exists>e. pr = Settled (Inl e)))
      \<and> (tracer (length l) = None \<longrightarrow>
           (\<exists>t. pr = Pending t
              \<and> ends_of (length l) new @ pending_ends (length l) [t] = [date_of (completed_at jb)]
              \<and> (\<forall>s. s \<noteq> length l \<longrightarrow> pending_ends s [t] = [])))"
proof (cases "tracer (length l)")
  case (Some msg)
  then have "processJob_call jb tracer pc l =
      (Settled (Inl (Error msg)), l @ (job_start jb pc, outcome_at tracer (length l)) # [])"
    by (simp add: processJob_call_def invoke_def outcome_at_def)
  with Some show ?thesis by (intro exI [of _ "Settled (Inl (Error msg))"] exI [of _ "[]"]) simp
next
  case None
  let ?l1 = "l @ [(job_start jb pc, Returned)]"
  have "length l < length ?l1" by simp
  from job_callback_call_range [OF this, of tracer jb] obtain t new where
    eq: "job_callback_call tracer jb (length l) ?l1 = (t, ?l1 @ new)"
    and sc: "scoped (length l) new" and bl: "below (length (?l1 @ new)) new"
    and en: "ends_of (length l) new @ pending_ends (length l) [t] = [date_of (completed_at jb)]"
    and ot: "\<forall>s. s \<noteq> length l \<longrightarrow> pending_ends s [t] = []"
    by blast
  have "processJob_call jb tracer pc l =
      (Pending t, l @ (job_start jb pc, outcome_at tracer (length l)) # new)"
    using None eq by (simp add: processJob_call_def invoke_def outcome_at_def)
  moreover have "below (Suc (length l + length new)) new" using bl by simp
  ultimately show ?thesis using None sc en ot
    by (intro exI [of _ "Pending t"] exI [of _ new]) simp
qed

lemma job_task_range:
  "\<exists>t new. job_task tracer span processJob_call jb (queue, l) =
        (queue @ [t], l @ (job_start jb (WithSpan span), outcome_at tracer (length l)) # new)
      \<and> scoped (length l) new \<and> below (Suc (length l + length new)) new
      \<and> (tracer (length l) = None \<longrightarrow>
            ends_of (length l) new @ pending_ends (length l) [t] = [date_of (completed_at jb)])
      \<and> (\<forall>s. s \<noteq> length l \<longrightarrow> pending_ends s [t] = [])"
proof -
  obtain pr new where
    eq: "processJob_call jb tracer (WithSpan span) l =
           (pr, l @ (job_start jb (WithSpan span), outcome_at tracer (length l)) # new)"
    and sc: "scoped (length l) new" and bl: "below (Suc (length l + length new)) new"
    and ra: "tracer (length l) \<noteq> None \<longrightarrow> new = [] \<and> (\<exists>e. pr = Settled (Inl e))"
    and op: "tracer (length l) = None \<longrightarrow>
           (\<exists>t. pr = Pending t
              \<and> ends_of (length l) new @ pending_ends (length l) [t] = [date_of (completed_at jb)]
              \<and> (\<forall>s. s \<noteq> length l \<longrightarrow> pending_ends s [t] = []))"
    using processJob_call_range [of jb tracer "WithSpan span" l] by (elim exE conjE) (rule that)
  show ?thesis
  proof (cases "tracer (length l)")
    case (Some msg)
    with ra obtain e where pr: "pr = Settled (Inl e)" by auto
    have "job_task tracer span processJob_call jb (queue, l) =
        (queue @ [AfterJob jb (Inl e)], l @ (job_start jb (WithSpan span), outcome_at tracer (length l)) # new)"
      by (simp add: job_task_def eq pr)
    then show ?thesis using sc bl Some
      by (intro exI [of _ "AfterJob jb (Inl e)"] exI [of _ new]) simp
  next
    case None
    with op obtain t where pr: "pr = Pending t"
      and en: "ends_of (length l) new @ pending_ends (length l) [t] = [date_of (completed_at jb)]"
      and ot: "\<forall>s. s \<noteq> length l \<longrightarrow> pending_ends s [t] = []"
      by auto
    have "job_task tracer span processJob_call jb (queue, l) =
        (queue @ [t], l @ (job_start jb (WithSpan span), outcome_at tracer (length l)) # new)"
      by (simp add: job_task_def eq pr)
    then show ?thesis using sc bl en ot
      by (intro exI [of _ t] exI [of _ new]) simp
  qed
qed

lemma run_task_ends:
  "\<exists>new. snd (run_task tracer t l) = l @ new
      \<and> (\<forall>s. ends_of s new = pending_ends s [t])
      \<and> (\<forall>s. statuses_of s new = [])
      \<and> (\<forall>s. pending_ends s (fst (run_task tracer t l)) = [])"
proof (cases t)
  case (AfterSteps jb span rs)
  then show ?thesis
    by (intro exI [of _ "failure_report jb rs @
          [(End span (date_of (completed_at jb)), outcome_at tracer (length (l @ failure_report jb rs)))]"])
       (simp add: job_catch_finally_eq)
next
  case (AfterCallback jb r)
  then show ?thesis by (intro exI [of _ "[]"]) simp
next
  case (AfterJob jb r)
  then show ?thesis
    by (cases r) (simp_all add: report_def)
qed

lemma run_queue_ends:
  "\<exists>new. run_queue tracer queue l = l @ new
      \<and> (\<forall>s. ends_of s new = pending_ends s queue)
      \<and> (\<forall>s. statuses_of s new = [])"
proof (induction tracer queue l rule: run_queue.induct)
  case (1 tracer l)
  show ?case by simp
next
  case (2 tracer t queue l)
  obtain new1 where n1: "snd (run_task tracer t l) = l @ new1"
    and e1: "\<forall>s. ends_of s new1 = pending_ends s [t]"
    and s1: "\<forall>s. statuses_of s new1 = []"
    and p1: "\<forall>s. pending_ends s (fst (run_task tracer t l)) = []"
    using run_task_ends by blast
  from "2.IH" obtain new2 where
    n2: "run_queue tracer (queue @ fst (run_task tracer t l)) (snd (run_task tracer t l)) =
           snd (run_task tracer t l) @ new2"
    and e2: "\<forall>s. ends_of s new2 = pending_ends s (queue @ fst (run_task tracer t l))"
    and s2: "\<forall>s. statuses_of s new2 = []"
    by blast
  have "run_queue tracer (t # queue) l = l @ (new1 @ new2)" using n1 n2 by simp
  moreover have "\<forall>s. ends_of s (new1 @ new2) = pending_ends s (t # queue)"
    using e1 e2 p1 by (simp add: pending_ends_Cons [of _ t queue])
  moreover have "\<forall>s. statuses_of s (new1 @ new2) = []" using s1 s2 by simp
  ultimately show ?case by blast
qed


lemma fold_job_task_range:
  "\<exists>queue' new ps. fold (job_task tracer span processJob_call) jobs (queue, l) = (queue @ queue', l @ new)
     \<and> scoped (length l) new \<and> below (length (l @ new)) new
     \<and> (\<forall>s. s < length l \<or> length (l @ new) \<le> s \<longrightarrow> pending_ends s queue' = [])
     \<and> length ps = length jobs \<and> sorted_wrt (<) ps
     \<and> (\<forall>i<length jobs. length l \<le> ps ! i \<and> ps ! i < length (l @ new)
          \<and> (l @ new) ! (ps ! i) = (job_start (jobs ! i) (WithSpan span), outcome_at tracer (ps ! i))
          \<and> (tracer (ps ! i) = None \<longrightarrow>
               ends_of (ps ! i) new @ pending_ends (ps ! i) queue' = [date_of (completed_at (jobs ! i))]))"
proof (induction jobs arbitrary: queue l)
  case Nil
  show ?case by (intro exI [of _ "[]"]) simp
next
  case (Cons jb jobs)
  define p where "p = length l"
  define x where "x = (job_start jb (WithSpan span), outcome_at tracer p)"
  have "\<exists>t new1. job_task tracer span processJob_call jb (queue, l) = (queue @ [t], l @ x # new1)
      \<and> scoped p new1 \<and> below (Suc (p + length new1)) new1
      \<and> (tracer p = None \<longrightarrow> ends_of p new1 @ pending_ends p [t] = [date_of (completed_at jb)])
      \<and> (\<forall>s. s \<noteq> p \<longrightarrow> pending_ends s [t] = [])"
    unfolding p_def x_def by (rule job_task_range)
  then obtain t new1 where
    jt: "job_task tracer span processJob_call jb (queue, l) = (queue @ [t], l @ x # new1)"
    and sc1: "scoped p new1" and bl1: "below (Suc (p + length new1)) new1"
    and en1: "tracer p = None \<longrightarrow> ends_of p new1 @ pending_ends p [t] = [date_of (completed_at jb)]"
    and ot1: "\<forall>s. s \<noteq> p \<longrightarrow> pending_ends s [t] = []"
    by (elim exE conjE) (rule that)
  define l1 where "l1 = l @ x # new1"
  have len1: "length l1 = Suc (p + length new1)" by (simp add: l1_def p_def)
  from Cons.IH [of "queue @ [t]" l1] obtain queue2 new2 ps2 where
    f2: "fold (job_task tracer span processJob_call) jobs (queue @ [t], l1) = ((queue @ [t]) @ queue2, l1 @ new2)"
    and sc2: "scoped (length l1) new2" and bl2: "below (length (l1 @ new2)) new2"
    and pe2: "\<forall>s. s < length l1 \<or> length (l1 @ new2) \<le> s \<longrightarrow> pending_ends s queue2 = []"
    and lps: "length ps2 = length jobs" and so2: "sorted_wrt (<) ps2"
    and each2: "\<forall>i<length jobs. length l1 \<le> ps2 ! i \<and> ps2 ! i < length (l1 @ new2)
          \<and> (l1 @ new2) ! (ps2 ! i) = (job_start (jobs ! i) (WithSpan span), outcome_at tracer (ps2 ! i))
          \<and> (tracer (ps2 ! i) = None \<longrightarrow>
               ends_of (ps2 ! i) new2 @ pending_ends (ps2 ! i) queue2 = [date_of (completed_at (jobs ! i))])"
    by (elim exE conjE) (rule that)
  define new where "new = x # new1 @ new2"
  have ln: "l @ new = l1 @ new2" by (simp add: new_def l1_def)
  have 1: "fold (job_task tracer span processJob_call) (jb # jobs) (queue, l) = (queue @ (t # queue2), l @ new)"
    using jt f2 by (simp add: l1_def [symmetric] ln)
  have sx: "subject (fst x) = None" by (simp add: x_def)
  have 2: "scoped (length l) new"
    using sc1 scoped_mono [OF sc2, of "length l"] sx
    by (simp add: new_def x_def p_def l1_def)
  have bl1': "below (length (l @ new)) new1" using bl1 by (rule below_mono) (simp add: ln len1)
  have 3: "below (length (l @ new)) new"
    using bl1' bl2 by (simp add: new_def x_def ln [symmetric])
  have 4: "\<forall>s. s < length l \<or> length (l @ new) \<le> s \<longrightarrow> pending_ends s (t # queue2) = []"
  proof (intro allI impI)
    fix s assume s: "s < length l \<or> length (l @ new) \<le> s"
    then have "s \<noteq> p" by (auto simp: p_def ln len1)
    then have a: "pending_ends s [t] = []" using ot1 by blast
    have "s < length l1 \<or> length (l1 @ new2) \<le> s" using s by (auto simp: ln len1 p_def)
    then have "pending_ends s queue2 = []" using pe2 by blast
    with a show "pending_ends s (t # queue2) = []" by (simp add: pending_ends_Cons [of s t queue2])
  qed
  have 5: "length (p # ps2) = length (jb # jobs)" using lps by simp
  have gt: "\<forall>y\<in>set ps2. p < y"
  proof
    fix y assume "y \<in> set ps2"
    then obtain j where "j < length ps2" "ps2 ! j = y" by (auto simp: in_set_conv_nth)
    then show "p < y" using each2 lps len1 by fastforce
  qed
  have 6: "sorted_wrt (<) (p # ps2)" using so2 gt by simp
  have 7: "\<forall>i<length (jb # jobs). length l \<le> (p # ps2) ! i \<and> (p # ps2) ! i < length (l @ new)
          \<and> (l @ new) ! ((p # ps2) ! i) =
              (job_start ((jb # jobs) ! i) (WithSpan span), outcome_at tracer ((p # ps2) ! i))
          \<and> (tracer ((p # ps2) ! i) = None \<longrightarrow>
               ends_of ((p # ps2) ! i) new @ pending_ends ((p # ps2) ! i) (t # queue2) =
                 [date_of (completed_at ((jb # jobs) ! i))])"
  proof (intro allI impI)
    fix i assume i: "i < length (jb # jobs)"
    show "length l \<le> (p # ps2) ! i \<and> (p # ps2) ! i < length (l @ new)
          \<and> (l @ new) ! ((p # ps2) ! i) =
              (job_start ((jb # jobs) ! i) (WithSpan span), outcome_at tracer ((p # ps2) ! i))
          \<and> (tracer ((p # ps2) ! i) = None \<longrightarrow>
               ends_of ((p # ps2) ! i) new @ pending_ends ((p # ps2) ! i) (t # queue2) =
                 [date_of (completed_at ((jb # jobs) ! i))])"
    proof (cases i)
      case 0
      have a: "(l @ new) ! p = x" unfolding new_def p_def by (rule nth_middle)
      have e2: "ends_of p new2 = []" using sc2 by (rule ends_of_scoped) (simp add: len1)
      have q2: "pending_ends p queue2 = []" using pe2 by (simp add: len1)
      have b: "tracer p = None \<longrightarrow>
          ends_of p new @ pending_ends p (t # queue2) = [date_of (completed_at jb)]"
        using en1 e2 q2 by (simp add: new_def x_def pending_ends_Cons [of p t queue2])
      show ?thesis using 0 a b by (simp add: p_def x_def new_def)
    next
      case (Suc j)
      then have j: "j < length jobs" using i by simp
      define p' where "p' = ps2 ! j"
      from each2 [rule_format, OF j] have
        lo: "length l1 \<le> p'" and hi: "p' < length (l1 @ new2)"
        and at: "(l1 @ new2) ! p' = (job_start (jobs ! j) (WithSpan span), outcome_at tracer p')"
        and en: "tracer p' = None \<longrightarrow>
               ends_of p' new2 @ pending_ends p' queue2 = [date_of (completed_at (jobs ! j))]"
        unfolding p'_def by blast+
      have ne: "p' \<noteq> p" using lo by (simp add: len1)
      have e1: "ends_of p' new1 = []" using bl1 by (rule ends_of_below) (use lo in \<open>simp add: len1\<close>)
      have q1: "pending_ends p' [t] = []" using ot1 ne by blast
      have ex: "ends_of p' [x] = []" by (simp add: x_def)
      have b: "tracer p' = None \<longrightarrow>
          ends_of p' new @ pending_ends p' (t # queue2) = [date_of (completed_at (jobs ! j))]"
        using en e1 q1 by (simp add: new_def x_def pending_ends_Cons [of p' t queue2])
      have c: "length l \<le> p'" using lo by (simp add: len1 p_def)
      show ?thesis using Suc hi at b c by (simp add: p'_def [symmetric] ln)
    qed
  qed
  show ?case
    by (rule exI [of _ "t # queue2"], rule exI [of _ new], rule exI [of _ "p # ps2"])
       (rule conjI [OF 1 conjI [OF 2 conjI [OF 3 conjI [OF 4 conjI [OF 5 conjI [OF 6 7]]]]]])
qed


lemma job_callback_settle:
  "job_callback tracer jb span l = settle tracer (case job_callback_call tracer jb span l of (t, l2) \<Rightarrow> (Pending t, l2))"
proof -
  have cf: "job_callback tracer jb span l =
      (case job_try tracer jb span l of (r, l1) \<Rightarrow> job_catch_finally tracer jb span r l1)"
    by (simp add: job_callback_def job_catch_finally_def split: prod.splits sum.splits)
  obtain r1 l1 where st: "setSpanStatus tracer span (conclusion jb = Some ''success'') l = (r1, l1)"
    by (cases "setSpanStatus tracer span (conclusion jb = Some ''success'') l")
  show ?thesis
  proof (cases r1)
    case (Inl e)
    then show ?thesis
      unfolding cf by (simp add: job_try_def job_callback_call_def st settle_def split: prod.splits)
  next
    case (Inr u)
    show ?thesis
    proof (cases "steps jb")
      case None
      then show ?thesis
        unfolding cf using Inr
        by (simp add: job_try_def job_callback_call_def st settle_def split: prod.splits)
    next
      case (Some sts)
      then show ?thesis
        unfolding cf using Inr
        by (simp add: job_try_def job_callback_call_def st settle_def split: prod.splits)
    qed
  qed
qed

lemma processJob_awaited:
  "processJob jb tracer pc l = settle tracer (processJob_call jb tracer pc l)"
proof (cases "tracer (length l)")
  case (Some msg)
  then show ?thesis
    by (simp add: processJob_def processJob_call_def startActiveSpan_def invoke_def settle_def)
next
  case None
  then show ?thesis
    by (simp add: processJob_def processJob_call_def startActiveSpan_def invoke_def job_callback_settle)
qed


lemma handleJobsAndSteps_batch:
  assumes "tracer (length l) = None" and "tracer (Suc (length l)) = None"
  shows "\<exists>news newr queue ps.
      handleJobsAndSteps tracer span jobs rootAttributes processJob_call l =
        (Inr (), ((l @ [(SetStatus span (aggregate jobs) None, Returned),
                      (SetAttributes span (removeUndefinedProperties rootAttributes), Returned)]) @ news) @ newr)
    \<and> scoped (length l + 2) news
    \<and> (\<forall>s. ends_of s newr = pending_ends s queue) \<and> (\<forall>s. statuses_of s newr = [])
    \<and> (\<forall>s<length l + 2. pending_ends s queue = [])
    \<and> length ps = length jobs \<and> sorted_wrt (<) ps
    \<and> (\<forall>i<length jobs. length l + 2 \<le> ps ! i \<and> ps ! i < length l + 2 + length news
          \<and> ((l @ [(SetStatus span (aggregate jobs) None, Returned),
                   (SetAttributes span (removeUndefinedProperties rootAttributes), Returned)]) @ news) ! (ps ! i)
              = (job_start (jobs ! i) (WithSpan span), outcome_at tracer (ps ! i))
          \<and> (tracer (ps ! i) = None \<longrightarrow>
               ends_of (ps ! i) news @ pending_ends (ps ! i) queue = [date_of (completed_at (jobs ! i))]))"
proof -
  define l2 where "l2 = l @ [(SetStatus span (aggregate jobs) None, Returned),
                      (SetAttributes span (removeUndefinedProperties rootAttributes), Returned)]"
  have len2: "length l2 = length l + 2" by (simp add: l2_def)
  obtain queue news ps where
    f: "fold (job_task tracer span processJob_call) jobs ([], l2) = ([] @ queue, l2 @ news)"
    and sc: "scoped (length l2) news"
    and pe: "\<forall>s. s < length l2 \<or> length (l2 @ news) \<le> s \<longrightarrow> pending_ends s queue = []"
    and lps: "length ps = length jobs" and so: "sorted_wrt (<) ps"
    and each: "\<forall>i<length jobs. length l2 \<le> ps ! i \<and> ps ! i < length (l2 @ news)
          \<and> (l2 @ news) ! (ps ! i) = (job_start (jobs ! i) (WithSpan span), outcome_at tracer (ps ! i))
          \<and> (tracer (ps ! i) = None \<longrightarrow>
               ends_of (ps ! i) news @ pending_ends (ps ! i) queue = [date_of (completed_at (jobs ! i))])"
    using fold_job_task_range [of tracer span jobs "[]" l2] by (elim exE conjE) (rule that)
  obtain newr where r: "run_queue tracer queue (l2 @ news) = (l2 @ news) @ newr"
    and er: "\<forall>s. ends_of s newr = pending_ends s queue" and sr: "\<forall>s. statuses_of s newr = []"
    using run_queue_ends [of tracer queue "l2 @ news"] by (elim exE conjE) (rule that)
  have agg: "(if list_ex (\<lambda>jb. conclusion jb \<noteq> Some ''success'') jobs then ERROR else OK) = aggregate jobs"
    by (simp add: aggregate_def list_ex_iff)
  have 1: "handleJobsAndSteps tracer span jobs rootAttributes processJob_call l = (Inr (), (l2 @ news) @ newr)"
    using assms f r by (simp add: handleJobsAndSteps_def agg invoke_def l2_def [symmetric])
  have 2: "scoped (length l + 2) news" using sc by (simp add: len2)
  have 3: "\<forall>s<length l + 2. pending_ends s queue = []" using pe by (simp add: len2)
  have 4: "\<forall>i<length jobs. length l + 2 \<le> ps ! i \<and> ps ! i < length l + 2 + length news
          \<and> (l2 @ news) ! (ps ! i) = (job_start (jobs ! i) (WithSpan span), outcome_at tracer (ps ! i))
          \<and> (tracer (ps ! i) = None \<longrightarrow>
               ends_of (ps ! i) news @ pending_ends (ps ! i) queue = [date_of (completed_at (jobs ! i))])"
    using each by (simp add: len2)
  show ?thesis
    unfolding l2_def [symmetric]
    by (rule exI [of _ news], rule exI [of _ newr], rule exI [of _ queue], rule exI [of _ ps])
       (rule conjI [OF 1 conjI [OF 2 conjI [OF er conjI [OF sr conjI [OF 3 conjI [OF lps conjI [OF so 4]]]]]]])
qed

lemma handleJobsAndSteps_log:
  assumes "span < length l"
  shows "\<exists>rest. snd (handleJobsAndSteps tracer span jobs rootAttributes processJob_call l) =
          l @ (SetStatus span (aggregate jobs) None, outcome_at tracer (length l)) # rest
      \<and> statuses_of span rest = [] \<and> ends_of span rest = []"
proof -
  let ?ss = "(SetStatus span (aggregate jobs) None, outcome_at tracer (length l))"
  let ?sa = "(SetAttributes span (removeUndefinedProperties rootAttributes), outcome_at tracer (Suc (length l)))"
  have agg: "(if list_ex (\<lambda>jb. conclusion jb \<noteq> Some ''success'') jobs then ERROR else OK) = aggregate jobs"
    by (simp add: aggregate_def list_ex_iff)
  consider (a) msg where "tracer (length l) = Some msg"
    | (b) msg where "tracer (length l) = None" "tracer (Suc (length l)) = Some msg"
    | (c) "tracer (length l) = None" "tracer (Suc (length l)) = None"
    by (cases "tracer (length l)"; cases "tracer (Suc (length l))") auto
  then show ?thesis
  proof cases
    case a
    then have "snd (handleJobsAndSteps tracer span jobs rootAttributes processJob_call l) = l @ ?ss # []"
      by (simp add: handleJobsAndSteps_def agg invoke_def outcome_at_def)
    then show ?thesis by (intro exI [of _ "[]"]) simp
  next
    case b
    then have "snd (handleJobsAndSteps tracer span jobs rootAttributes processJob_call l) = l @ ?ss # [?sa]"
      by (simp add: handleJobsAndSteps_def agg invoke_def outcome_at_def)
    then show ?thesis by (intro exI [of _ "[?sa]"]) simp
  next
    case c
    from handleJobsAndSteps_batch [OF c, of span jobs rootAttributes] obtain news newr queue where
      eq: "handleJobsAndSteps tracer span jobs rootAttributes processJob_call l =
        (Inr (), ((l @ [(SetStatus span (aggregate jobs) None, Returned),
                      (SetAttributes span (removeUndefinedProperties rootAttributes), Returned)]) @ news) @ newr)"
      and sc: "scoped (length l + 2) news"
      and er: "\<forall>s. ends_of s newr = pending_ends s queue" and sr: "\<forall>s. statuses_of s newr = []"
      and pe: "\<forall>s<length l + 2. pending_ends s queue = []"
      by (elim exE conjE) (rule that)
    have lt: "span < length l + 2" using assms by simp
    have o: "outcome_at tracer (length l) = Returned" "outcome_at tracer (Suc (length l)) = Returned"
      using c by (simp_all add: outcome_at_def)
    have "snd (handleJobsAndSteps tracer span jobs rootAttributes processJob_call l) =
        l @ ?ss # (?sa # news @ newr)"
      by (simp add: eq o)
    moreover have "statuses_of span news = []" using sc lt by (rule statuses_of_scoped)
    moreover have "ends_of span news = []" using sc lt by (rule ends_of_scoped)
    moreover have "ends_of span newr = []" using er pe lt by simp
    moreover have "statuses_of span newr = []" using sr by simp
    ultimately show ?thesis by (intro exI [of _ "?sa # news @ newr"]) simp
  qed
qed

text \<open>
  C5. A job processed on its own (the promise of \<^verbatim>\<open>processJob\<close> awaited, lemma
  \<open>processJob_awaited\<close>): once its span is open, the span is ended exactly once, with the
  completion timestamp of the job when it has one; \<^verbatim>\<open>processJob\<close> settles with what that
  \<^verbatim>\<open>span.end\<close> call returns, so an error raised in its \<^verbatim>\<open>try\<close> block (setting the status or
  processing the steps) never leaves it; and such an error is reported with
  \<^verbatim>\<open>core.setFailed\<close>. A batch (\<^verbatim>\<open>handleJobsAndSteps\<close> with \<^verbatim>\<open>processJob\<close>), once the status and
  the attributes of the root span are set: \<^verbatim>\<open>handleJobsAndSteps\<close> returns normally whatever
  raises in the jobs; the creation of a span is asked for every job, in the order of the
  jobs; and every job whose span opens has it ended exactly once, with the completion
  timestamp of the job when it has one, whatever raises in that job or in another one.
\<close>

theorem job_failure_isolated:
  "(tracer (length l) = None \<longrightarrow>
      ends_of (length l) (drop (length l) (snd (processJob jb tracer pc l))) = [date_of (completed_at jb)]
    \<and> (\<exists>k. length l < k \<and> k < length (snd (processJob jb tracer pc l))
         \<and> snd (processJob jb tracer pc l) ! k = (End (length l) (date_of (completed_at jb)), outcome_at tracer k)
         \<and> fst (processJob jb tracer pc l) = result_at tracer k)
    \<and> (fst (job_try tracer jb (length l) (l @ [(job_start jb pc, Returned)])) \<noteq> Inr () \<longrightarrow>
         (SetFailed (''Failed to process job '' @ name jb), Returned)
           \<in> set (drop (length l) (snd (processJob jb tracer pc l)))))
   \<and> (tracer (length l) = None \<and> tracer (Suc (length l)) = None \<longrightarrow>
      fst (handleJobsAndSteps tracer rootSpan jobs rootAttributes processJob_call l) = Inr ()
    \<and> (\<exists>ps. length ps = length jobs \<and> sorted_wrt (<) ps
        \<and> (\<forall>i<length jobs.
             length l + 2 \<le> ps ! i
           \<and> ps ! i < length (snd (handleJobsAndSteps tracer rootSpan jobs rootAttributes processJob_call l))
           \<and> snd (handleJobsAndSteps tracer rootSpan jobs rootAttributes processJob_call l) ! (ps ! i)
               = (job_start (jobs ! i) (WithSpan rootSpan), outcome_at tracer (ps ! i))
           \<and> (tracer (ps ! i) = None \<longrightarrow>
                ends_of (ps ! i)
                  (drop (length l) (snd (handleJobsAndSteps tracer rootSpan jobs rootAttributes processJob_call l)))
                = [date_of (completed_at (jobs ! i))]))))"
proof (intro conjI impI)
  assume op: "tracer (length l) = None"
  from processJob_open [where tracer = tracer and l = l and jb = jb and pc = pc, OF op] obtain rest where
    eq: "processJob jb tracer pc l =
       (result_at tracer (length l + 2 + length rest),
        l @ (job_start jb pc, Returned)
          # (status_call (length l) (conclusion jb), outcome_at tracer (Suc (length l)))
          # rest
          @ [(End (length l) (date_of (completed_at jb)), outcome_at tracer (length l + 2 + length rest))])"
    and sc: "scoped (length l + 2) rest"
    and sf: "fst (job_try tracer jb (length l) (l @ [(job_start jb pc, Returned)])) \<noteq> Inr () \<longrightarrow>
          (SetFailed (''Failed to process job '' @ name jb), Returned) \<in> set rest"
    by (elim exE conjE) (rule that)
  define k where "k = length l + 2 + length rest"
  define front where "front = l @ (job_start jb pc, Returned)
          # (status_call (length l) (conclusion jb), outcome_at tracer (Suc (length l))) # rest"
  define en where "en = (End (length l) (date_of (completed_at jb)), outcome_at tracer k)"
  have eq': "processJob jb tracer pc l = (result_at tracer k, front @ en # [])"
    by (simp add: eq k_def front_def en_def)
  have lenf: "length front = k" by (simp add: front_def k_def)
  have e: "ends_of (length l) rest = []" using sc by (rule ends_of_scoped) simp
  show "ends_of (length l) (drop (length l) (snd (processJob jb tracer pc l))) = [date_of (completed_at jb)]"
    by (simp add: eq e)
  have "snd (processJob jb tracer pc l) ! k = en"
    unfolding eq' snd_conv lenf [symmetric] by (rule nth_middle)
  moreover have "length l < k" by (simp add: k_def)
  moreover have "k < length (snd (processJob jb tracer pc l))" by (simp add: eq' lenf)
  moreover have "fst (processJob jb tracer pc l) = result_at tracer k" by (simp add: eq')
  ultimately show "\<exists>k. length l < k \<and> k < length (snd (processJob jb tracer pc l))
         \<and> snd (processJob jb tracer pc l) ! k = (End (length l) (date_of (completed_at jb)), outcome_at tracer k)
         \<and> fst (processJob jb tracer pc l) = result_at tracer k"
    unfolding en_def by (intro exI [of _ k] conjI)
  show "(SetFailed (''Failed to process job '' @ name jb), Returned)
           \<in> set (drop (length l) (snd (processJob jb tracer pc l)))"
    if "fst (job_try tracer jb (length l) (l @ [(job_start jb pc, Returned)])) \<noteq> Inr ()"
    using sf that by (simp add: eq)
next
  assume c: "tracer (length l) = None \<and> tracer (Suc (length l)) = None"
  then have c1: "tracer (length l) = None" and c2: "tracer (Suc (length l)) = None" by simp_all
  define l2 where "l2 = l @ [(SetStatus rootSpan (aggregate jobs) None, Returned),
                      (SetAttributes rootSpan (removeUndefinedProperties rootAttributes), Returned)]"
  from handleJobsAndSteps_batch [OF c1 c2, of rootSpan jobs rootAttributes] obtain news newr queue ps where
    eq: "handleJobsAndSteps tracer rootSpan jobs rootAttributes processJob_call l = (Inr (), (l2 @ news) @ newr)"
    and er: "\<forall>s. ends_of s newr = pending_ends s queue"
    and lps: "length ps = length jobs" and so: "sorted_wrt (<) ps"
    and each: "\<forall>i<length jobs. length l + 2 \<le> ps ! i \<and> ps ! i < length l + 2 + length news
          \<and> (l2 @ news) ! (ps ! i) = (job_start (jobs ! i) (WithSpan rootSpan), outcome_at tracer (ps ! i))
          \<and> (tracer (ps ! i) = None \<longrightarrow>
               ends_of (ps ! i) news @ pending_ends (ps ! i) queue = [date_of (completed_at (jobs ! i))])"
    unfolding l2_def [symmetric] by (elim exE conjE) (rule that)
  have len2: "length l2 = length l + 2" by (simp add: l2_def)
  show "fst (handleJobsAndSteps tracer rootSpan jobs rootAttributes processJob_call l) = Inr ()"
    by (simp add: eq)
  have d: "drop (length l) ((l2 @ news) @ newr) =
      [(SetStatus rootSpan (aggregate jobs) None, Returned),
       (SetAttributes rootSpan (removeUndefinedProperties rootAttributes), Returned)] @ news @ newr"
    by (simp add: l2_def)
  have "\<forall>i<length jobs.
             length l + 2 \<le> ps ! i
           \<and> ps ! i < length ((l2 @ news) @ newr)
           \<and> ((l2 @ news) @ newr) ! (ps ! i)
               = (job_start (jobs ! i) (WithSpan rootSpan), outcome_at tracer (ps ! i))
           \<and> (tracer (ps ! i) = None \<longrightarrow>
                ends_of (ps ! i) (drop (length l) ((l2 @ news) @ newr))
                = [date_of (completed_at (jobs ! i))])"
  proof (intro allI impI)
    fix i assume i: "i < length jobs"
    from each [rule_format, OF i] have
      lo: "length l + 2 \<le> ps ! i" and hi: "ps ! i < length l + 2 + length news"
      and at: "(l2 @ news) ! (ps ! i) = (job_start (jobs ! i) (WithSpan rootSpan), outcome_at tracer (ps ! i))"
      and en: "tracer (ps ! i) = None \<longrightarrow>
               ends_of (ps ! i) news @ pending_ends (ps ! i) queue = [date_of (completed_at (jobs ! i))]"
      by blast+
    have inl: "ps ! i < length (l2 @ news)" using hi by (simp add: len2)
    have a: "((l2 @ news) @ newr) ! (ps ! i) = (l2 @ news) ! (ps ! i)"
      using inl by (simp only: nth_append if_True)
    have b: "ends_of (ps ! i) (drop (length l) ((l2 @ news) @ newr)) =
        ends_of (ps ! i) news @ pending_ends (ps ! i) queue"
      unfolding d using er by simp
    show "length l + 2 \<le> ps ! i
           \<and> ps ! i < length ((l2 @ news) @ newr)
           \<and> ((l2 @ news) @ newr) ! (ps ! i)
               = (job_start (jobs ! i) (WithSpan rootSpan), outcome_at tracer (ps ! i))
           \<and> (tracer (ps ! i) = None \<longrightarrow>
                ends_of (ps ! i) (drop (length l) ((l2 @ news) @ newr))
                = [date_of (completed_at (jobs ! i))])"
      unfolding a b using lo inl at en by simp
  qed
  then show "\<exists>ps. length ps = length jobs \<and> sorted_wrt (<) ps
        \<and> (\<forall>i<length jobs.
             length l + 2 \<le> ps ! i
           \<and> ps ! i < length (snd (handleJobsAndSteps tracer rootSpan jobs rootAttributes processJob_call l))
           \<and> snd (handleJobsAndSteps tracer rootSpan jobs rootAttributes processJob_call l) ! (ps ! i)
               = (job_start (jobs ! i) (WithSpan rootSpan), outcome_at tracer (ps ! i))
           \<and> (tracer (ps ! i) = None \<longrightarrow>
                ends_of (ps ! i)
                  (drop (length l) (snd (handleJobsAndSteps tracer rootSpan jobs rootAttributes processJob_call l)))
                = [date_of (completed_at (jobs ! i))]))"
    unfolding eq snd_conv using lps so by (intro exI [of _ ps] conjI)
qed

theorem job_failure_isolated_witness:
  "raising_at 5 (length root_opened) = None \<and> raising_at 5 (Suc (length root_opened)) = None
   \<and> fst (job_try (raising_at 5) someJob 1 (root_opened @ [(job_start someJob (WithSpan 0), Returned)]))
       = Inl (Error ''boom'')
   \<and> fst (processJob someJob (raising_at 5) (WithSpan 0) root_opened) = Inr ()
   \<and> ends_of 1 (drop 1 (snd (processJob someJob (raising_at 5) (WithSpan 0) root_opened)))
       = [Some (Date ''2023-01-01T00:10:00Z'')]
   \<and> (SetFailed ''Failed to process job someJob'', Returned)
       \<in> set (drop 1 (snd (processJob someJob (raising_at 5) (WithSpan 0) root_opened)))
   \<and> fst (handleJobsAndSteps (raising_at 5) 0 [someJob, failedJob] [] processJob_call root_opened) = Inr ()
   \<and> snd (handleJobsAndSteps (raising_at 5) 0 [someJob, failedJob] [] processJob_call root_opened) ! 3
       = (job_start someJob (WithSpan 0), Returned)
   \<and> snd (handleJobsAndSteps (raising_at 5) 0 [someJob, failedJob] [] processJob_call root_opened) ! 5
       = (step_start step1 (WithSpan 3), Raised)
   \<and> snd (handleJobsAndSteps (raising_at 5) 0 [someJob, failedJob] [] processJob_call root_opened) ! 6
       = (job_start failedJob (WithSpan 0), Returned)
   \<and> snd (handleJobsAndSteps (raising_at 5) 0 [someJob, failedJob] [] processJob_call root_opened) ! 8
       = (End 6 (Some (Date ''2023-01-01T00:12:00Z'')), Returned)
   \<and> snd (handleJobsAndSteps (raising_at 5) 0 [someJob, failedJob] [] processJob_call root_opened) ! 9
       = (SetFailed ''Failed to process job someJob'', Returned)
   \<and> snd (handleJobsAndSteps (raising_at 5) 0 [someJob, failedJob] [] processJob_call root_opened) ! 10
       = (End 3 (Some (Date ''2023-01-01T00:10:00Z'')), Returned)
   \<and> length (snd (handleJobsAndSteps (raising_at 5) 0 [someJob, failedJob] [] processJob_call root_opened)) = 11
   \<and> ends_of 3 (drop 1 (snd (handleJobsAndSteps (raising_at 5) 0 [someJob, failedJob] [] processJob_call root_opened)))
       = [Some (Date ''2023-01-01T00:10:00Z'')]
   \<and> ends_of 6 (drop 1 (snd (handleJobsAndSteps (raising_at 5) 0 [someJob, failedJob] [] processJob_call root_opened)))
       = [Some (Date ''2023-01-01T00:12:00Z'')]"
  using job_failure_isolated [where tracer = "raising_at 5" and l = root_opened and jb = someJob
      and pc = "WithSpan 0" and rootSpan = 0 and jobs = "[someJob, failedJob]" and rootAttributes = "[]"]
  by (simp add: raising_at_def root_opened_def someJob_def failedJob_def step1_def job_task_def
      processJob_call_def job_callback_call_def job_catch_finally_def handleJobsAndSteps_def
      processJob_def job_callback_def job_try_def
      startActiveSpan_def invoke_def setSpanStatus_def report_def
      removeUndefinedProperties_def assign_def step_callback_def step_attributes_def Let_def
      nullable_to_string_def
      date_of_def if_truthy_def outcome_at_def result_at_def ends_of_def)

section \<open>The root span: status and end time\<close>

lemma foldl_later:
  "foldl (later P) x xs \<in> set (x # xs) \<and>
   (\<forall>k\<in>set (x # xs). time_key P k \<le> time_key P (foldl (later P) x xs))"
proof (induction xs arbitrary: x)
  case Nil
  show ?case by simp
next
  case (Cons y ys)
  from Cons.IH [of "later P x y"] have
    m: "foldl (later P) (later P x y) ys \<in> set (later P x y # ys)"
    and g: "\<forall>k\<in>set (later P x y # ys). time_key P k \<le> time_key P (foldl (later P) (later P x y) ys)"
    by blast+
  have l: "later P x y = x \<or> later P x y = y" by (simp add: later_def)
  have ge: "time_key P x \<le> time_key P (later P x y)" "time_key P y \<le> time_key P (later P x y)"
    by (simp_all add: later_def)
  have top: "time_key P (later P x y) \<le> time_key P (foldl (later P) (later P x y) ys)"
    using g by simp
  have 1: "foldl (later P) x (y # ys) \<in> set (x # y # ys)" using m l by auto
  have 2: "\<forall>k\<in>set (x # y # ys). time_key P k \<le> time_key P (foldl (later P) x (y # ys))"
    using g ge top by auto
  show ?case using 1 2 by blast
qed

lemma reduce_later:
  "xs \<noteq> [] \<Longrightarrow> \<exists>j. reduce (later P) xs = Inr j \<and> j \<in> set xs \<and> (\<forall>k\<in>set xs. time_key P k \<le> time_key P j)"
  using foldl_later [of P "hd xs" "tl xs"] by (cases xs) auto

lemma root_callback_log:
  assumes "span < length l"
  shows "\<exists>rest. snd (root_callback P jobs tracer rootAttributes span l) =
          l @ (SetStatus span (aggregate jobs) None, outcome_at tracer (length l)) # rest
      \<and> statuses_of span rest = []
      \<and> (case reduce (later P) (filter (\<lambda>jb. status jb = ''completed'') jobs) of
           Inl e \<Rightarrow> fst (root_callback P jobs tracer rootAttributes span l) = Inl e \<and> ends_of span rest = []
         | Inr j \<Rightarrow> ends_of span rest = [date_of (completed_at j)])"
proof -
  let ?ss = "(SetStatus span (aggregate jobs) None, outcome_at tracer (length l))"
  obtain r l1 where h: "handleJobsAndSteps tracer span jobs rootAttributes processJob_call l = (r, l1)"
    by (cases "handleJobsAndSteps tracer span jobs rootAttributes processJob_call l")
  obtain rest1 where l1: "l1 = l @ ?ss # rest1" and s1: "statuses_of span rest1 = []"
    and e1: "ends_of span rest1 = []"
    using handleJobsAndSteps_log [OF assms, of tracer jobs rootAttributes] h by auto
  define rest2 where "rest2 = (case r of
      Inl e \<Rightarrow> rest1 @ [(SetFailed (''Failed to parse jobs and steps: '' @ to_string e), Returned)]
    | Inr u \<Rightarrow> rest1)"
  have s2: "statuses_of span rest2 = []" and e2: "ends_of span rest2 = []"
    using s1 e1 by (simp_all add: rest2_def split: sum.splits)
  have l2: "(case (r, l1) of
                  (Inl e, l1) \<Rightarrow> report (SetFailed (''Failed to parse jobs and steps: '' @ to_string e)) l1
                | (Inr u, l1) \<Rightarrow> l1) = l @ ?ss # rest2"
    by (simp add: rest2_def l1 report_def split: sum.splits)
  show ?thesis
  proof (cases "reduce (later P) (filter (\<lambda>jb. status jb = ''completed'') jobs)")
    case (Inl e)
    then have "root_callback P jobs tracer rootAttributes span l = (Inl e, l @ ?ss # rest2)"
      unfolding root_callback_def h Let_def l2 by simp
    with Inl s2 e2 show ?thesis by (intro exI [of _ rest2]) simp
  next
    case (Inr j)
    let ?dbg = "(DiagDebug (''completed at: '' @ nullable_to_string (completed_at j)), Returned)"
    let ?l3 = "l @ ?ss # rest2 @ [?dbg]"
    have "snd (root_callback P jobs tracer rootAttributes span l) =
        l @ ?ss # (rest2 @ [?dbg, (End span (date_of (completed_at j)), outcome_at tracer (length ?l3))])"
      unfolding root_callback_def h Let_def l2 Inr by (simp add: report_def invoke_eq)
    with Inr s2 e2 show ?thesis
      by (intro exI [of _ "rest2 @ [?dbg, (End span (date_of (completed_at j)), outcome_at tracer (length ?l3))]"]) simp
  qed
qed

lemma createSpans_open:
  "tracer (length l) = None \<Longrightarrow>
   createSpansForJobsAndSteps P start jobs tracer rootAttributes l =
     root_callback P jobs tracer rootAttributes (length l) (l @ [(root_start start, Returned)])"
  by (simp add: createSpansForJobsAndSteps_def startActiveSpan_def invoke_def)

text \<open>
  C1. Once the root span is open, the run makes exactly one \<^verbatim>\<open>setStatus\<close> call on it, with
  code \<open>ERROR\<close> when some job's conclusion is not \<^verbatim>\<open>'success'\<close> and \<open>OK\<close> otherwise. This holds
  whatever the tracer does afterwards, so it depends on the conclusions of the jobs only
  and not on whether the processing of any job raised.
\<close>

theorem root_status_aggregate:
  "tracer (length l) = None \<Longrightarrow>
   statuses_of (length l)
     (drop (length l) (snd (createSpansForJobsAndSteps Date_parse start jobs tracer rootAttributes l))) =
   [(if \<exists>jb\<in>set jobs. conclusion jb \<noteq> Some ''success'' then ERROR else OK, None)]"
proof -
  assume op: "tracer (length l) = None"
  let ?l1 = "l @ [(root_start start, Returned)]"
  have "length l < length ?l1" by simp
  from root_callback_log [OF this, of Date_parse jobs tracer rootAttributes] obtain rest where
    eq: "snd (root_callback Date_parse jobs tracer rootAttributes (length l) ?l1) =
          ?l1 @ (SetStatus (length l) (aggregate jobs) None, outcome_at tracer (length ?l1)) # rest"
    and s: "statuses_of (length l) rest = []"
    by blast
  have "snd (createSpansForJobsAndSteps Date_parse start jobs tracer rootAttributes l) =
      l @ ((root_start start, Returned)
           # (SetStatus (length l) (aggregate jobs) None, outcome_at tracer (length ?l1)) # rest)"
    using createSpans_open [where tracer = tracer and l = l] op eq by simp
  then show ?thesis by (simp only: drop_new) (simp add: s aggregate_def)
qed

theorem root_status_aggregate_witness:
  "raising_at 5 0 = None
   \<and> statuses_of 0 (snd (createSpansForJobsAndSteps Date_parse_sample ''2023-01-01T00:00:00Z''
        [someJob, failedJob] (raising_at 5) [] [])) = [(ERROR, None)]
   \<and> statuses_of 0 (snd (createSpansForJobsAndSteps Date_parse_sample ''2023-01-01T00:00:00Z''
        [someJob] (raising_at 5) [] [])) = [(OK, None)]"
  using root_status_aggregate [where tracer = "raising_at 5" and l = "[]" and Date_parse = Date_parse_sample
      and start = "''2023-01-01T00:00:00Z''" and jobs = "[someJob, failedJob]" and rootAttributes = "[]"]
    root_status_aggregate [where tracer = "raising_at 5" and l = "[]" and Date_parse = Date_parse_sample
      and start = "''2023-01-01T00:00:00Z''" and jobs = "[someJob]" and rootAttributes = "[]"]
  by (simp add: raising_at_def someJob_def failedJob_def)

lemma root_end:
  assumes op: "tracer (length l) = None"
    and sel: "reduce (later Date_parse) (filter (\<lambda>jb. status jb = ''completed'') jobs) = Inr j"
  shows "ends_of (length l)
     (drop (length l) (snd (createSpansForJobsAndSteps Date_parse start jobs tracer rootAttributes l))) =
   [date_of (completed_at j)]"
proof -
  let ?l1 = "l @ [(root_start start, Returned)]"
  have "length l < length ?l1" by simp
  from root_callback_log [OF this, of Date_parse jobs tracer rootAttributes] sel obtain rest where
    eq: "snd (root_callback Date_parse jobs tracer rootAttributes (length l) ?l1) =
          ?l1 @ (SetStatus (length l) (aggregate jobs) None, outcome_at tracer (length ?l1)) # rest"
    and e: "ends_of (length l) rest = [date_of (completed_at j)]"
    by auto
  have "snd (createSpansForJobsAndSteps Date_parse start jobs tracer rootAttributes l) =
      l @ ((root_start start, Returned)
           # (SetStatus (length l) (aggregate jobs) None, outcome_at tracer (length ?l1)) # rest)"
    using createSpans_open [where tracer = tracer and l = l] op eq by simp
  then show ?thesis by (simp only: drop_new) (simp add: e)
qed

lemma time_key_time_of:
  "time_key Date_parse jb = (case time_of Date_parse jb of None \<Rightarrow> 0 | Some t \<Rightarrow> t)"
  by (simp add: time_key_def time_of_def split: option.splits)

lemma selected_completed:
  assumes "\<exists>jb\<in>set jobs. status jb = ''completed''"
  shows "\<exists>j. reduce (later Date_parse) (filter (\<lambda>jb. status jb = ''completed'') jobs) = Inr j
      \<and> j \<in> set jobs \<and> status j = ''completed''
      \<and> (\<forall>k\<in>set jobs. status k = ''completed'' \<longrightarrow> time_key Date_parse k \<le> time_key Date_parse j)"
proof -
  have "filter (\<lambda>jb. status jb = ''completed'') jobs \<noteq> []"
    using assms by (simp add: filter_empty_conv)
  from reduce_later [OF this, of Date_parse] show ?thesis by auto
qed

lemma selected_is_latest:
  assumes sel: "reduce (later Date_parse) (filter (\<lambda>jb. status jb = ''completed'') jobs) = Inr j"
  shows "j \<in> set jobs \<and> status j = ''completed''
      \<and> (\<forall>k\<in>set jobs. status k = ''completed'' \<longrightarrow> time_key Date_parse k \<le> time_key Date_parse j)"
proof -
  have "filter (\<lambda>jb. status jb = ''completed'') jobs \<noteq> []" using sel by auto
  from reduce_later [OF this, of Date_parse] sel show ?thesis by auto
qed

text \<open>
  C2, as amended. When at least one job has status \<^verbatim>\<open>'completed'\<close> and the root span is open,
  the run ends the root span exactly once, with the completion timestamp of the job the
  reduction selects: a completed job whose comparison key is maximal among the completed
  jobs. The key is the parsed completion time, and 0 for a timestamp that is absent or
  does not parse (C10). When every completed job has a completion timestamp that parses,
  or some completed job has one that parses to a time after the epoch, the selected job
  has a completion timestamp that parses, the root span is ended with the \<^verbatim>\<open>Date\<close> built from
  it, and no completed job has a later completion time.
\<close>

theorem root_end_latest_completed:
  assumes some: "\<exists>jb\<in>set jobs. status jb = ''completed''"
    and op: "tracer (length l) = None"
  shows "\<exists>j. reduce (later Date_parse) (filter (\<lambda>jb. status jb = ''completed'') jobs) = Inr j
      \<and> j \<in> set jobs \<and> status j = ''completed''
      \<and> (\<forall>k\<in>set jobs. status k = ''completed'' \<longrightarrow> time_key Date_parse k \<le> time_key Date_parse j)
      \<and> ends_of (length l)
           (drop (length l) (snd (createSpansForJobsAndSteps Date_parse start jobs tracer rootAttributes l))) =
         [date_of (completed_at j)]
      \<and> ((\<forall>k\<in>set jobs. status k = ''completed'' \<longrightarrow> time_of Date_parse k \<noteq> None)
           \<or> (\<exists>k\<in>set jobs. status k = ''completed'' \<and> (\<exists>t>0. time_of Date_parse k = Some t)) \<longrightarrow>
           (\<exists>s t. completed_at j = Some s \<and> Date_parse s = Some t
              \<and> date_of (completed_at j) = Some (Date s)
              \<and> (\<forall>k\<in>set jobs. status k = ''completed'' \<longrightarrow>
                    (\<forall>t'. time_of Date_parse k = Some t' \<longrightarrow> t' \<le> t))))"
proof -
  from selected_completed [OF some, of Date_parse] obtain j where
    sel: "reduce (later Date_parse) (filter (\<lambda>jb. status jb = ''completed'') jobs) = Inr j"
    and j: "j \<in> set jobs" "status j = ''completed''"
    and mx: "\<forall>k\<in>set jobs. status k = ''completed'' \<longrightarrow> time_key Date_parse k \<le> time_key Date_parse j"
    by blast
  have e: "ends_of (length l)
           (drop (length l) (snd (createSpansForJobsAndSteps Date_parse start jobs tracer rootAttributes l))) =
         [date_of (completed_at j)]"
    using op sel by (rule root_end)
  have p: "(\<forall>k\<in>set jobs. status k = ''completed'' \<longrightarrow> time_of Date_parse k \<noteq> None)
           \<or> (\<exists>k\<in>set jobs. status k = ''completed'' \<and> (\<exists>t>0. time_of Date_parse k = Some t)) \<longrightarrow>
           (\<exists>s t. completed_at j = Some s \<and> Date_parse s = Some t
              \<and> date_of (completed_at j) = Some (Date s)
              \<and> (\<forall>k\<in>set jobs. status k = ''completed'' \<longrightarrow>
                    (\<forall>t'. time_of Date_parse k = Some t' \<longrightarrow> t' \<le> t)))"
  proof
    assume h: "(\<forall>k\<in>set jobs. status k = ''completed'' \<longrightarrow> time_of Date_parse k \<noteq> None)
           \<or> (\<exists>k\<in>set jobs. status k = ''completed'' \<and> (\<exists>t>0. time_of Date_parse k = Some t))"
    have "time_of Date_parse j \<noteq> None"
    proof
      assume none: "time_of Date_parse j = None"
      from h show False
      proof
        assume "\<forall>k\<in>set jobs. status k = ''completed'' \<longrightarrow> time_of Date_parse k \<noteq> None"
        with j none show False by blast
      next
        assume "\<exists>k\<in>set jobs. status k = ''completed'' \<and> (\<exists>t>0. time_of Date_parse k = Some t)"
        then obtain k t where k: "k \<in> set jobs" "status k = ''completed''"
          and t: "0 < t" "time_of Date_parse k = Some t" by blast
        have "time_key Date_parse k \<le> time_key Date_parse j" using mx k by blast
        with t none show False by (simp add: time_key_time_of)
      qed
    qed
    then obtain t where t: "time_of Date_parse j = Some t" by blast
    then obtain s where s: "completed_at j = Some s" "s \<noteq> []" "Date_parse s = Some t"
      by (auto simp: time_of_def if_truthy_def split: option.splits if_splits)
    have d: "date_of (completed_at j) = Some (Date s)" using s by (simp add: date_of_def if_truthy_def)
    have "\<forall>k\<in>set jobs. status k = ''completed'' \<longrightarrow> (\<forall>t'. time_of Date_parse k = Some t' \<longrightarrow> t' \<le> t)"
    proof (intro ballI impI allI)
      fix k t' assume k: "k \<in> set jobs" "status k = ''completed''" and t': "time_of Date_parse k = Some t'"
      have "time_key Date_parse k \<le> time_key Date_parse j" using mx k by blast
      then show "t' \<le> t" using t t' by (simp add: time_key_time_of)
    qed
    with s d show "\<exists>s t. completed_at j = Some s \<and> Date_parse s = Some t
              \<and> date_of (completed_at j) = Some (Date s)
              \<and> (\<forall>k\<in>set jobs. status k = ''completed'' \<longrightarrow>
                    (\<forall>t'. time_of Date_parse k = Some t' \<longrightarrow> t' \<le> t))" by blast
  qed
  show ?thesis using sel j mx e p by blast
qed

theorem root_end_latest_completed_witness:
  "status someJob = ''completed'' \<and> quiet 0 = None
   \<and> ends_of 0 (snd (createSpansForJobsAndSteps Date_parse_sample ''2023-01-01T00:00:00Z''
        [someJob, failedJob] quiet [] [])) = [Some (Date ''2023-01-01T00:12:00Z'')]"
  using root_end_latest_completed [where tracer = quiet and l = "[]" and Date_parse = Date_parse_sample
      and start = "''2023-01-01T00:00:00Z''" and jobs = "[someJob, failedJob]" and rootAttributes = "[]"]
  by (simp add: quiet_def someJob_def failedJob_def later_def time_key_def Date_parse_sample_def
      if_truthy_def date_of_def)

text \<open>
  C2 as stated fails when the only completion timestamps are before the epoch and some
  completed job has none: the job without a timestamp is compared as 0, which is later
  than any time before the epoch, so it is selected and the root span is ended with no
  end time, not at the one completion timestamp there is.
\<close>

theorem root_end_epoch_counterexample:
  "status oldJob = ''completed'' \<and> status unfinishedJob = ''completed''
   \<and> completed_at oldJob = Some ''1969-12-31T23:59:59Z''
   \<and> Date_parse_sample ''1969-12-31T23:59:59Z'' = Some (- 1000)
   \<and> completed_at unfinishedJob = None
   \<and> ends_of 0 (snd (createSpansForJobsAndSteps Date_parse_sample ''2023-01-01T00:00:00Z''
        [oldJob, unfinishedJob] quiet [] [])) = [None]
   \<and> ends_of 0 (snd (createSpansForJobsAndSteps Date_parse_sample ''2023-01-01T00:00:00Z''
        [oldJob, unfinishedJob] quiet [] [])) \<noteq> [Some (Date ''1969-12-31T23:59:59Z'')]"
  by (simp add: createSpansForJobsAndSteps_def startActiveSpan_def invoke_def quiet_def root_callback_def
      handleJobsAndSteps_def removeUndefinedProperties_def oldJob_def unfinishedJob_def Date_parse_sample_def
      job_task_def processJob_call_def job_callback_call_def job_catch_finally_def setSpanStatus_def
      report_def later_def time_key_def date_of_def if_truthy_def)

text \<open>
  C10, as amended. A job whose completion timestamp is absent or does not parse is compared
  as 0; when the reduction selects such a job, no completed job has a parseable timestamp
  later than 0. If the timestamp of the selected job is absent, the root span is ended
  with no end time; if it is present, parseable or not, the root span is ended with the
  \<^verbatim>\<open>Date\<close> built from it.
\<close>

theorem root_end_without_time:
  assumes sel: "reduce (later Date_parse) (filter (\<lambda>jb. status jb = ''completed'') jobs) = Inr j"
    and op: "tracer (length l) = None"
  shows "(\<forall>k. time_of Date_parse k = None \<longrightarrow> time_key Date_parse k = 0)
      \<and> (time_of Date_parse j = None \<longrightarrow>
           (\<forall>k\<in>set jobs. status k = ''completed'' \<longrightarrow> (\<forall>t. time_of Date_parse k = Some t \<longrightarrow> t \<le> 0)))
      \<and> (if_truthy (completed_at j) = None \<longrightarrow>
           ends_of (length l)
             (drop (length l) (snd (createSpansForJobsAndSteps Date_parse start jobs tracer rootAttributes l))) =
           [None])
      \<and> (\<forall>s. if_truthy (completed_at j) = Some s \<longrightarrow>
           ends_of (length l)
             (drop (length l) (snd (createSpansForJobsAndSteps Date_parse start jobs tracer rootAttributes l))) =
           [Some (Date s)])"
proof -
  have e: "ends_of (length l)
           (drop (length l) (snd (createSpansForJobsAndSteps Date_parse start jobs tracer rootAttributes l))) =
         [date_of (completed_at j)]"
    using op sel by (rule root_end)
  have mx: "\<forall>k\<in>set jobs. status k = ''completed'' \<longrightarrow> time_key Date_parse k \<le> time_key Date_parse j"
    using selected_is_latest [OF sel] by blast
  have 1: "\<forall>k. time_of Date_parse k = None \<longrightarrow> time_key Date_parse k = 0"
    by (simp add: time_key_time_of)
  have 2: "time_of Date_parse j = None \<longrightarrow>
           (\<forall>k\<in>set jobs. status k = ''completed'' \<longrightarrow> (\<forall>t. time_of Date_parse k = Some t \<longrightarrow> t \<le> 0))"
  proof (intro impI ballI allI)
    fix k t assume "time_of Date_parse j = None" "k \<in> set jobs" "status k = ''completed''"
      "time_of Date_parse k = Some t"
    with mx show "t \<le> 0" by (auto simp: time_key_time_of)
  qed
  show ?thesis using 1 2 unfolding e by (simp add: date_of_def)
qed

theorem root_end_without_time_witness:
  "reduce (later Date_parse_sample) (filter (\<lambda>jb. status jb = ''completed'') [undatedJob, unfinishedJob])
     = Inr unfinishedJob
   \<and> quiet 0 = None
   \<and> time_key Date_parse_sample undatedJob = 0
   \<and> ends_of 0 (snd (createSpansForJobsAndSteps Date_parse_sample ''2023-01-01T00:00:00Z''
        [undatedJob, unfinishedJob] quiet [] [])) = [None]"
proof -
  have sel: "reduce (later Date_parse_sample) (filter (\<lambda>jb. status jb = ''completed'') [undatedJob, unfinishedJob])
     = Inr unfinishedJob"
    by (simp add: undatedJob_def unfinishedJob_def later_def time_key_def Date_parse_sample_def if_truthy_def)
  have q: "quiet (length ([] :: log)) = None" by (simp add: quiet_def)
  have k: "time_key Date_parse_sample undatedJob = 0"
    by (simp add: undatedJob_def time_key_def Date_parse_sample_def if_truthy_def)
  have c: "if_truthy (completed_at unfinishedJob) = None" by (simp add: unfinishedJob_def if_truthy_def)
  from root_end_without_time [where tracer = quiet and l = "[]" and Date_parse = Date_parse_sample
      and start = "''2023-01-01T00:00:00Z''" and jobs = "[undatedJob, unfinishedJob]" and rootAttributes = "[]",
      OF sel q] c
  have "ends_of 0 (snd (createSpansForJobsAndSteps Date_parse_sample ''2023-01-01T00:00:00Z''
        [undatedJob, unfinishedJob] quiet [] [])) = [None]" by simp
  with sel k show ?thesis by (simp add: quiet_def)
qed

text \<open>
  C10 as stated fails for a timestamp that is present and does not parse: the root span
  is then ended with the invalid \<^verbatim>\<open>Date\<close> built from it, not with an undefined end time.
\<close>

theorem root_end_unparseable_counterexample:
  "status undatedJob = ''completed''
   \<and> completed_at undatedJob = Some ''not a date''
   \<and> Date_parse_sample ''not a date'' = None
   \<and> reduce (later Date_parse_sample) (filter (\<lambda>jb. status jb = ''completed'') [undatedJob]) = Inr undatedJob
   \<and> ends_of 0 (snd (createSpansForJobsAndSteps Date_parse_sample ''2023-01-01T00:00:00Z'' [undatedJob] quiet [] []))
       = [Some (Date ''not a date'')]
   \<and> ends_of 0 (snd (createSpansForJobsAndSteps Date_parse_sample ''2023-01-01T00:00:00Z'' [undatedJob] quiet [] []))
       \<noteq> [None]"
  by (simp add: createSpansForJobsAndSteps_def startActiveSpan_def invoke_def quiet_def root_callback_def
      handleJobsAndSteps_def removeUndefinedProperties_def undatedJob_def Date_parse_sample_def
      job_task_def processJob_call_def job_callback_call_def job_catch_finally_def setSpanStatus_def
      report_def later_def time_key_def date_of_def if_truthy_def)

section \<open>Runs without a completed job\<close>

lemma createSpans_without_completed_job:
  assumes none: "\<forall>jb\<in>set jobs. status jb \<noteq> ''completed''"
    and op: "tracer (length l) = None"
  shows "fst (createSpansForJobsAndSteps Date_parse start jobs tracer rootAttributes l) =
           Inl (TypeError ''Reduce of empty array with no initial value'')
       \<and> ends_of (length l)
           (drop (length l) (snd (createSpansForJobsAndSteps Date_parse start jobs tracer rootAttributes l))) = []"
proof -
  let ?l1 = "l @ [(root_start start, Returned)]"
  have "filter (\<lambda>jb. status jb = ''completed'') jobs = []"
    using none by (simp add: filter_empty_conv)
  then have r: "reduce (later Date_parse) (filter (\<lambda>jb. status jb = ''completed'') jobs) =
      Inl (TypeError ''Reduce of empty array with no initial value'')" by simp
  have "length l < length ?l1" by simp
  from root_callback_log [OF this, of Date_parse jobs tracer rootAttributes] r obtain rest where
    eq: "snd (root_callback Date_parse jobs tracer rootAttributes (length l) ?l1) =
          ?l1 @ (SetStatus (length l) (aggregate jobs) None, outcome_at tracer (length ?l1)) # rest"
    and f: "fst (root_callback Date_parse jobs tracer rootAttributes (length l) ?l1) =
          Inl (TypeError ''Reduce of empty array with no initial value'')"
    and e: "ends_of (length l) rest = []"
    by auto
  have c: "createSpansForJobsAndSteps Date_parse start jobs tracer rootAttributes l =
      root_callback Date_parse jobs tracer rootAttributes (length l) ?l1"
    using createSpans_open [where tracer = tracer and l = l] op by simp
  have "snd (createSpansForJobsAndSteps Date_parse start jobs tracer rootAttributes l) =
      l @ ((root_start start, Returned)
           # (SetStatus (length l) (aggregate jobs) None, outcome_at tracer (length ?l1)) # rest)"
    using c eq by simp
  then have "ends_of (length l)
           (drop (length l) (snd (createSpansForJobsAndSteps Date_parse start jobs tracer rootAttributes l))) = []"
    by (simp only: drop_new) (simp add: e)
  with f c show ?thesis by simp
qed

text \<open>
  C3. With no completed job \<^verbatim>\<open>reduce\<close> has no element to start from. On the empty job list
  and a tracer that never raises, \<^verbatim>\<open>createSpansForJobsAndSteps\<close> raises a \<^verbatim>\<open>TypeError\<close> after
  three calls: the root span is created, its status and attributes are set, and nothing
  else happens. The lemma before it shows the same for every job list without a completed
  job.
\<close>

theorem no_completed_job_raises:
  "createSpansForJobsAndSteps Date_parse_sample ''2023-01-01T00:00:00Z'' [] quiet [] [] =
     (Inl (TypeError ''Reduce of empty array with no initial value''),
      [(StartActiveSpan ''root''
          \<lparr>root = True, startTime = Some (Date ''2023-01-01T00:00:00Z''), attributes = None\<rparr> ROOT_CONTEXT,
        Returned),
       (SetStatus 0 OK None, Returned),
       (SetAttributes 0 [], Returned)])"
  by (simp add: createSpansForJobsAndSteps_def startActiveSpan_def invoke_def quiet_def root_callback_def
      handleJobsAndSteps_def removeUndefinedProperties_def)

text \<open>
  C4. In that run the root span, created at position 0, is never ended: the reduction
  raises inside the \<^verbatim>\<open>finally\<close> block before \<^verbatim>\<open>span.end\<close> is reached.
\<close>

theorem root_span_left_open:
  "ends_of 0 (snd (createSpansForJobsAndSteps Date_parse_sample ''2023-01-01T00:00:00Z'' [] quiet [] [])) = []"
  by (simp add: createSpansForJobsAndSteps_def startActiveSpan_def invoke_def quiet_def root_callback_def
      handleJobsAndSteps_def removeUndefinedProperties_def)

end
